theory Spec2Isabelle
  imports Complex_Main
begin

section \<open>text-store: a line buffer with two conversion caches\<close>

text \<open>
  The development embeds \<^verbatim>\<open>src/index.ts\<close>: the class \<^verbatim>\<open>TextStore\<close> with its two
  caches \<^verbatim>\<open>SCache\<close> and \<^verbatim>\<open>VCache\<close>.

  Conventions of the embedding.
  \<^item> JavaScript numbers that hold line numbers, columns and offsets are \<open>int\<close>: the
    source computes them with additions, subtractions and exact divisions of integers,
    which doubles do exactly below \<open>2 ^ 53\<close>. The one place where the source leaves the
    integers is the midpoint of \<^verbatim>\<open>findHighestCachedLineToIndex\<close>. It is computed in \<open>rat\<close>
    and every operation is rounded to the nearest double (\<open>to_double\<close>), as the source
    does it.
  \<^item> A thrown exception is \<open>Inl e\<close> of a sum; the three \<^verbatim>\<open>RangeError\<close>s of the source are
    told apart by their message, and reading a property of \<^verbatim>\<open>undefined\<close> is \<open>TypeError\<close>.
  \<^item> A computation that contains a loop or a recursion with no evident bound returns an
    \<open>option\<close>: \<open>None\<close> is "does not return".
  \<^item> Mutation of \<^verbatim>\<open>this\<close> is state passing: a method takes the store and returns the new one.
\<close>

subsection \<open>Strings and arrays of the host language\<close>

definition newline :: char where
  "newline = CHR 0x0A"

text \<open>\<^verbatim>\<open>str.split(/\n/)\<close>: the pieces between newlines; the empty string gives one empty piece.\<close>

fun split_nl :: "string \<Rightarrow> string list" where
  "split_nl [] = [[]]"
| "split_nl (c # cs) =
     (if c = newline then [] # split_nl cs
      else (case split_nl cs of [] \<Rightarrow> [[c]] | l # ls \<Rightarrow> (c # l) # ls))"

text \<open>\<^verbatim>\<open>arr.join('\n')\<close>.\<close>

fun join_nl :: "string list \<Rightarrow> string" where
  "join_nl [] = []"
| "join_nl [l] = l"
| "join_nl (l # m # ls) = l @ newline # join_nl (m # ls)"

text \<open>
  \<^verbatim>\<open>s.slice(0, c)\<close> and \<^verbatim>\<open>s.slice(c)\<close> on a string: a negative \<open>c\<close> counts from the end.
\<close>

definition slice_to :: "string \<Rightarrow> int \<Rightarrow> string" where
  "slice_to l c = (if c < 0 then take (length l - nat (- c)) l else take (nat c) l)"

definition slice_from :: "string \<Rightarrow> int \<Rightarrow> string" where
  "slice_from l c = (if c < 0 then drop (length l - nat (- c)) l else drop (nat c) l)"

text \<open>\<^verbatim>\<open>arr[k]\<close> on the line array: \<open>None\<close> is \<^verbatim>\<open>undefined\<close>.\<close>

definition nth_line :: "string list \<Rightarrow> int \<Rightarrow> string option" where
  "nth_line ls k = (if 0 \<le> k \<and> k < int (length ls) then Some (ls ! nat k) else None)"

text \<open>\<^verbatim>\<open>arr.slice(a, b)\<close> on the line array.\<close>

definition rel_index :: "nat \<Rightarrow> int \<Rightarrow> nat" where
  "rel_index n k = (if k < 0 then nat (int n + k) else min (nat k) n)"

definition slice_lines :: "string list \<Rightarrow> int \<Rightarrow> int \<Rightarrow> string list" where
  "slice_lines ls a b =
     (let from = rel_index (length ls) a; to = rel_index (length ls) b
      in take (to - from) (drop from ls))"

text \<open>
  \<^verbatim>\<open>arr.splice(i0, deleteCount, ...items)\<close>: the new array and the removed elements.
  A negative \<open>deleteCount\<close> removes nothing.
\<close>

definition splice_lines :: "string list \<Rightarrow> int \<Rightarrow> int \<Rightarrow> string list \<Rightarrow> string list \<times> string list" where
  "splice_lines ls i0 deleteCount items =
     (let from = rel_index (length ls) i0;
          cnt = min (nat deleteCount) (length ls - from)
      in (take from ls @ items @ drop (from + cnt) ls, take cnt (drop from ls)))"

text \<open>
  A JavaScript array used as a sparse table: the properties that were assigned, and
  \<^verbatim>\<open>length\<close>. Reading a key that was never assigned gives \<^verbatim>\<open>undefined\<close> (\<open>None\<close>); assigning
  at an index at or beyond \<^verbatim>\<open>length\<close> moves \<^verbatim>\<open>length\<close> just past it; \<^verbatim>\<open>slice(0, n)\<close> keeps the
  indices below \<open>n\<close>, and for a negative \<open>n\<close> the indices below \<^verbatim>\<open>length + n\<close>.
\<close>

record 'a js_array =
  entries :: "int \<Rightarrow> 'a option"
  alength :: int

definition js_empty :: "'a js_array" where
  "js_empty = \<lparr>entries = (\<lambda>k. None), alength = 0\<rparr>"

definition js_assign :: "'a js_array \<Rightarrow> int \<Rightarrow> 'a \<Rightarrow> 'a js_array" where
  "js_assign a k v =
     \<lparr>entries = (entries a)(k \<mapsto> v),
      alength = (if 0 \<le> k \<and> alength a \<le> k then k + 1 else alength a)\<rparr>"

definition js_slice0 :: "'a js_array \<Rightarrow> int \<Rightarrow> 'a js_array" where
  "js_slice0 a n =
     (let final = (if n < 0 then max (alength a + n) 0 else min n (alength a))
      in \<lparr>entries = (\<lambda>k. if 0 \<le> k \<and> k < final then entries a k else None),
          alength = final\<rparr>)"

subsection \<open>Numbers of the host language\<close>

text \<open>
  A JavaScript number is an IEEE 754 double: a significand of 53 bits times a power of
  two that is at least \<open>2 ^ - 1074\<close>. Scaled by \<open>2 ^ 1074\<close> every double is an integer,
  and around a scaled magnitude \<open>n\<close> the doubles are the multiples of \<open>2 ^ ulp_exp n\<close>:
  of \<open>1\<close> below \<open>2 ^ 53\<close> (the subnormal numbers and the first binade), of \<open>2\<close> from
  there to \<open>2 ^ 54\<close>, and so on.
\<close>

function ulp_exp :: "nat \<Rightarrow> nat" where
  "ulp_exp n = (if n < 2 ^ 53 then 0 else Suc (ulp_exp (n div 2)))"
  by pat_completeness auto
termination
  by (relation "measure (\<lambda>n. n)") auto

declare ulp_exp.simps [simp del]

text \<open>Rounding to the nearest integer, a tie to the even one.\<close>

definition round_half_even :: "rat \<Rightarrow> int" where
  "round_half_even y =
     (let f = \<lfloor>y\<rfloor>; r = y - of_int f
      in if r < 1 / 2 then f
         else if 1 / 2 < r then f + 1
         else if even f then f else f + 1)"

text \<open>
  The result of an arithmetic operation is the double nearest to the exact result, a
  tie going to the double with the even significand. Overflow to infinity is left out:
  the numbers rounded here are differences and midpoints of line numbers.
\<close>

definition double_scale :: rat where
  "double_scale = 2 ^ 1074"

definition to_double :: "rat \<Rightarrow> rat" where
  "to_double x =
     (if x = 0 then 0
      else (let y = x * double_scale;
                q = 2 ^ ulp_exp (nat \<lfloor>\<bar>y\<bar>\<rfloor>)
            in of_int (round_half_even (y / q)) * q / double_scale))"

subsection \<open>Positions, ranges, errors\<close>

record ITextPosition =
  line :: int
  col :: int

record ITextRange =
  start :: ITextPosition
  endp :: ITextPosition

datatype error =
    IndexOutOfRange      \<comment> \<open>\<^verbatim>\<open>RangeError('Index out of range')\<close>\<close>
  | PositionOutOfRange   \<comment> \<open>\<^verbatim>\<open>RangeError('TextPosition out of range')\<close>\<close>
  | InvalidPosition      \<comment> \<open>\<^verbatim>\<open>RangeError('TextPosition is not zero-index based. ...')\<close>\<close>
  | TypeError            \<comment> \<open>a property of \<^verbatim>\<open>undefined\<close> was read\<close>

definition DEFAULT_BLOCK_SIZE :: int where
  "DEFAULT_BLOCK_SIZE = 10"

subsection \<open>The two caches\<close>

text \<open>
  \<^verbatim>\<open>SCache\<close> divides its key by the block size before it indexes the array. Every caller
  passes a multiple of the block size, so the quotient is an integer.
\<close>

definition SCache_get :: "'a js_array \<Rightarrow> int \<Rightarrow> 'a option" where
  "SCache_get c idx = entries c (idx div DEFAULT_BLOCK_SIZE)"

definition SCache_set :: "'a js_array \<Rightarrow> int \<Rightarrow> 'a \<Rightarrow> 'a js_array" where
  "SCache_set c idx v = js_assign c (idx div DEFAULT_BLOCK_SIZE) v"

definition SCache_flush :: "'a js_array \<Rightarrow> int \<Rightarrow> 'a js_array" where
  "SCache_flush c from = js_slice0 c (from div DEFAULT_BLOCK_SIZE)"

definition VCache_get :: "'a js_array \<Rightarrow> int \<Rightarrow> 'a option" where
  "VCache_get c idx = entries c idx"

definition VCache_set :: "'a js_array \<Rightarrow> int \<Rightarrow> 'a \<Rightarrow> 'a js_array" where
  "VCache_set c idx v = js_assign c idx v"

definition VCache_flush :: "'a js_array \<Rightarrow> int \<Rightarrow> 'a js_array" where
  "VCache_flush c from = js_slice0 c from"

text \<open>
  The source tests a cached value with \<^verbatim>\<open>!value\<close>. A cached position is an object and
  passes whenever it is present; a cached number passes when it is present and not zero:
  \<open>truthy v\<close> is the number that passes, if any.
\<close>

definition truthy :: "int option \<Rightarrow> int option" where
  "truthy v = (case v of None \<Rightarrow> None | Some n \<Rightarrow> if n = 0 then None else Some n)"

subsection \<open>The store\<close>

record TextStore =
  str :: string
  lines :: "string list"
  size_store :: int
  indexToPosCache :: "ITextPosition js_array"
  lineToIndexCache :: "int js_array"

definition new_TextStore :: "string \<Rightarrow> TextStore" where
  "new_TextStore s =
     \<lparr>str = s, lines = split_nl s, size_store = int (length s),
      indexToPosCache = js_empty, lineToIndexCache = js_empty\<rparr>"

definition roundToLowerBlockSize :: "int \<Rightarrow> int" where
  "roundToLowerBlockSize index = (index div DEFAULT_BLOCK_SIZE) * DEFAULT_BLOCK_SIZE"

definition convertPosToZeroBased :: "ITextPosition \<Rightarrow> ITextPosition" where
  "convertPosToZeroBased pos = \<lparr>line = line pos - 1, col = col pos - 1\<rparr>"

text \<open>
  The first test reads \<^verbatim>\<open>this.lines[pos.line].length\<close> whenever \<^verbatim>\<open>pos.line\<close> does not exceed
  the number of lines, also for a line that is not there.
\<close>

definition checkTextPosition :: "TextStore \<Rightarrow> ITextPosition \<Rightarrow> error + unit" where
  "checkTextPosition s pos =
     (if line pos > int (length (lines s)) then Inl PositionOutOfRange
      else (case nth_line (lines s) (line pos) of
              None \<Rightarrow> Inl TypeError
            | Some l \<Rightarrow>
                if col pos > int (length l) then Inl PositionOutOfRange
                else if col pos < 0 \<or> line pos < 0 then Inl InvalidPosition
                else Inr ()))"

text \<open>
  Modelled from the spec: the function \<^verbatim>\<open>clamp\<close> is imported from a package that is not
  among the sources. It is the three-argument clamp \<^verbatim>\<open>clamp(value, min, max)\<close> that brings
  \<open>value\<close> into the interval between the two bounds, whichever of them is the larger.
\<close>

definition clamp :: "int \<Rightarrow> int \<Rightarrow> int \<Rightarrow> int" where
  "clamp v lo hi =
     (if lo < hi then (if v < lo then lo else if v > hi then hi else v)
      else (if v < hi then hi else if v > lo then lo else v))"

definition clampTextPosition :: "TextStore \<Rightarrow> ITextPosition \<Rightarrow> error + ITextPosition" where
  "clampTextPosition s pos =
     (let clampedLine = clamp (line pos) 1 (int (length (lines s)))
      in (case nth_line (lines s) clampedLine of
            None \<Rightarrow> Inl TypeError
          | Some l \<Rightarrow> Inr \<lparr>line = clampedLine, col = clamp (col pos) 1 (int (length l))\<rparr>))"

definition getSize :: "TextStore \<Rightarrow> int" where
  "getSize s = size_store s"

definition getContents :: "TextStore \<Rightarrow> ITextRange option \<Rightarrow> error + string" where
  "getContents s rng =
     (case rng of
        None \<Rightarrow> Inr (join_nl (lines s))
      | Some r \<Rightarrow>
          (case clampTextPosition s (convertPosToZeroBased (start r)) of
             Inl e \<Rightarrow> Inl e
           | Inr clampedStart \<Rightarrow>
               (case clampTextPosition s (convertPosToZeroBased (endp r)) of
                  Inl e \<Rightarrow> Inl e
                | Inr clampedEnd \<Rightarrow>
                    (case (nth_line (lines s) (line clampedStart),
                           nth_line (lines s) (line clampedEnd)) of
                       (Some ls, Some le) \<Rightarrow>
                         Inr (join_nl
                               ([slice_to ls (col clampedStart)]
                                @ slice_lines (lines s) (line clampedStart + 1) (line clampedEnd)
                                @ [slice_from le (col clampedEnd)]))
                     | _ \<Rightarrow> Inl TypeError))))"

subsection \<open>Outcomes of a method call\<close>

text \<open>
  A method call does not return (\<open>None\<close>), throws (\<open>Some (Inl e)\<close>), or returns a value
  and leaves the store in a new state (\<open>Some (Inr (v, s))\<close>). A call that throws is not
  followed further: every throw of the source comes before the first assignment of the
  call, except the reads of a missing line inside the loops.
\<close>

type_synonym 'a outcome = "(error + 'a \<times> TextStore) option"

definition andThen :: "'a outcome \<Rightarrow> ('a \<Rightarrow> TextStore \<Rightarrow> 'b outcome) \<Rightarrow> 'b outcome" where
  "andThen m f =
     (case m of
        None \<Rightarrow> None
      | Some (Inl e) \<Rightarrow> Some (Inl e)
      | Some (Inr (v, s)) \<Rightarrow> f v s)"

definition returns :: "'a \<Rightarrow> TextStore \<Rightarrow> 'a outcome" where
  "returns v s = Some (Inr (v, s))"

definition throws :: "error \<Rightarrow> 'a outcome" where
  "throws e = Some (Inl e)"

text \<open>What the caller sees of an outcome: the value or the exception.\<close>

definition value_of :: "'a outcome \<Rightarrow> (error + 'a) option" where
  "value_of m = map_option (map_sum id fst) m"

subsection \<open>Index to position\<close>

text \<open>
  \<^verbatim>\<open>findHighestCachedIndexToPos(start, end)\<close>. Both arguments are multiples of the block
  size at every call, so \<^verbatim>\<open>(end - start) / 2\<close> is an integer. The outer \<open>option\<close> is
  "returns"; the inner one is the result, \<open>None\<close> for \<^verbatim>\<open>undefined\<close>.
\<close>

partial_function (option) findHighestCachedIndexToPos ::
  "ITextPosition js_array \<Rightarrow> int \<Rightarrow> int \<Rightarrow> (int \<times> ITextPosition) option option" where
  "findHighestCachedIndexToPos c st en =
     (let middleIdx = roundToLowerBlockSize ((en - st) div 2 + st)
      in if middleIdx < DEFAULT_BLOCK_SIZE then Some None
         else (case SCache_get c middleIdx of
                 Some ret \<Rightarrow>
                   if st \<noteq> middleIdx \<and> en \<noteq> middleIdx
                   then findHighestCachedIndexToPos c middleIdx en
                   else Some (Some (middleIdx, ret))
               | None \<Rightarrow>
                   if st \<noteq> middleIdx
                   then findHighestCachedIndexToPos c st middleIdx
                   else Some None))"

declare findHighestCachedIndexToPos.simps [code]

text \<open>
  The anchor of \<^verbatim>\<open>indexToPosition\<close> (lines 127 to 147 of the source): the block of the
  index itself, else the block before it, else the search, else the synthetic anchor
  \<^verbatim>\<open>{ index: 0, pos: { line: 0, col: 0 } }\<close>.
\<close>

definition blockAnchor :: "ITextPosition js_array \<Rightarrow> int \<Rightarrow> (int \<times> ITextPosition) option" where
  "blockAnchor c closestIndex =
     (case SCache_get c closestIndex of
        Some p \<Rightarrow> Some (closestIndex, p)
      | None \<Rightarrow>
          (let oneBlockShortIndex = closestIndex - DEFAULT_BLOCK_SIZE
           in case SCache_get c oneBlockShortIndex of
                Some p \<Rightarrow> Some (oneBlockShortIndex, p)
              | None \<Rightarrow>
                  Option.bind (findHighestCachedIndexToPos c DEFAULT_BLOCK_SIZE closestIndex)
                    (\<lambda>res. Some (case res of
                                   None \<Rightarrow> (0, \<lparr>line = 0, col = 0\<rparr>)
                                 | Some r \<Rightarrow> r))))"

text \<open>
  The inner loop of \<^verbatim>\<open>indexToPosition\<close> (lines 161 to 166): it leaves only when
  \<^verbatim>\<open>closestIndex\<close> is equal to \<^verbatim>\<open>highestIndexableStop\<close>.
\<close>

partial_function (option) fillBlocks ::
  "ITextPosition js_array \<Rightarrow> int \<Rightarrow> int \<Rightarrow> int \<Rightarrow> int \<Rightarrow> (int \<times> ITextPosition js_array) option" where
  "fillBlocks c closestIndex highestIndexableStop lineNumber steppedCharCount =
     (if closestIndex \<noteq> highestIndexableStop
      then (let closestIndex' = closestIndex + DEFAULT_BLOCK_SIZE;
                c' = (case SCache_get c closestIndex' of
                        None \<Rightarrow> SCache_set c closestIndex'
                                  \<lparr>line = lineNumber, col = closestIndex' - steppedCharCount\<rparr>
                      | Some p \<Rightarrow> c)
            in fillBlocks c' closestIndex' highestIndexableStop lineNumber steppedCharCount)
      else Some (closestIndex, c))"

declare fillBlocks.simps [code]

text \<open>
  The outer loop of \<^verbatim>\<open>indexToPosition\<close> (lines 155 to 175). The result is the final
  \<^verbatim>\<open>lineNumber\<close> and \<^verbatim>\<open>colNumber\<close>, and the store with both caches updated. The constant
  \<^verbatim>\<open>currentLine\<close> of the source is \<open>0\<close>.
\<close>

partial_function (option) walkLines ::
  "TextStore \<Rightarrow> int \<Rightarrow> int \<Rightarrow> int \<Rightarrow> int \<Rightarrow> (error + int \<times> int \<times> TextStore) option" where
  "walkLines s index closestIndex lineNumber steppedCharCount =
     (if lineNumber < int (length (lines s))
      then (case nth_line (lines s) lineNumber of
              None \<Rightarrow> Some (Inl TypeError)
            | Some cLine \<Rightarrow>
                (let newLineCharLen = (if 0 < int (length (lines s)) then 1 else 0);
                     charCount = int (length cLine) + newLineCharLen;
                     steppedCharCountAfterThisCycle = steppedCharCount + charCount;
                     highestIndexableStop = roundToLowerBlockSize steppedCharCountAfterThisCycle
                 in Option.bind
                      (fillBlocks (indexToPosCache s) closestIndex highestIndexableStop
                         lineNumber steppedCharCount)
                      (\<lambda>(closestIndex', c').
                         (let s' = s\<lparr>indexToPosCache := c',
                                     lineToIndexCache :=
                                       VCache_set (lineToIndexCache s) lineNumber
                                         (steppedCharCount + newLineCharLen)\<rparr>
                          in if steppedCharCountAfterThisCycle > index
                             then Some (Inr (lineNumber, index - steppedCharCount, s'))
                             else walkLines s' index closestIndex' (lineNumber + 1)
                                    (steppedCharCount + charCount)))))
      else Some (Inr (lineNumber, 0, s)))"

declare walkLines.simps [code]

definition indexToPosition :: "TextStore \<Rightarrow> int \<Rightarrow> ITextPosition outcome" where
  "indexToPosition s index =
     (if index > size_store s then throws IndexOutOfRange
      else Option.bind (blockAnchor (indexToPosCache s) (roundToLowerBlockSize index))
             (\<lambda>(closestIndex, p).
                Option.bind (walkLines s index closestIndex (line p) (closestIndex - col p))
                  (\<lambda>r. case r of
                          Inl e \<Rightarrow> throws e
                        | Inr (lineNumber, colNumber, s') \<Rightarrow>
                            returns \<lparr>line = lineNumber + 1, col = colNumber + 1\<rparr> s')))"

subsection \<open>Position to index\<close>

text \<open>
  \<^verbatim>\<open>findHighestCachedLineToIndex(start, end)\<close>. The expression
  \<^verbatim>\<open>(diff % 2 !== 0 ? diff++ : diff)\<close> has the value of \<^verbatim>\<open>diff\<close> in both branches (the
  increment is a post-increment), so the midpoint is \<^verbatim>\<open>diff / 2 + start\<close> and need not be
  an integer. The subtraction, the division and the addition are each rounded to a
  double. A key that is not an integer was never assigned, so reading it finds nothing;
  a key that is found is an integer and is returned as one.
\<close>

partial_function (option) findHighestCachedLineToIndex ::
  "int js_array \<Rightarrow> rat \<Rightarrow> rat \<Rightarrow> (int \<times> int) option option" where
  "findHighestCachedLineToIndex c st en =
     (let diff = to_double (en - st);
          middleIdx = to_double (to_double (diff / 2) + st)
      in if middleIdx < 0 then Some None
         else (let ret = (if middleIdx = of_int \<lfloor>middleIdx\<rfloor>
                          then VCache_get c \<lfloor>middleIdx\<rfloor> else None)
               in case truthy ret of
                    Some v \<Rightarrow>
                      if st \<noteq> middleIdx \<and> en \<noteq> middleIdx
                      then findHighestCachedLineToIndex c middleIdx en
                      else Some (Some (\<lfloor>middleIdx\<rfloor>, v))
                  | None \<Rightarrow>
                      if st \<noteq> middleIdx
                      then findHighestCachedLineToIndex c st middleIdx
                      else Some None))"

declare findHighestCachedLineToIndex.simps [code]

text \<open>
  The anchor of \<^verbatim>\<open>zeroBasedPosToIndex\<close> (lines 196 to 214): the line itself, else the line
  before it, else the search, else the synthetic anchor \<^verbatim>\<open>{ index: 0, line: 0 }\<close>.
\<close>

definition lineAnchor :: "int js_array \<Rightarrow> int \<Rightarrow> (int \<times> int) option" where
  "lineAnchor c closestLineNum =
     (case truthy (VCache_get c closestLineNum) of
        Some v \<Rightarrow> Some (closestLineNum, v)
      | None \<Rightarrow>
          (case truthy (VCache_get c (closestLineNum - 1)) of
             Some v \<Rightarrow> Some (closestLineNum - 1, v)
           | None \<Rightarrow>
               Option.bind (findHighestCachedLineToIndex c 0 (of_int closestLineNum))
                 (\<lambda>res. Some (case res of None \<Rightarrow> (0, 0) | Some r \<Rightarrow> r))))"

text \<open>
  The loop of \<^verbatim>\<open>zeroBasedPosToIndex\<close> (lines 221 to 229), entered when \<^verbatim>\<open>cont\<close> holds. It
  leaves only at \<^verbatim>\<open>currentLine === line\<close>, or by reading the length of a line that is
  not there.
\<close>

function offsetLoop ::
  "string list \<Rightarrow> int js_array \<Rightarrow> int \<Rightarrow> int \<Rightarrow> int \<Rightarrow> error + int \<times> int js_array" where
  "offsetLoop ls c target currentLine offset =
     (let newLineCharLen = (if currentLine < int (length ls) then 1 else 0);
          c' = VCache_set c currentLine (offset + newLineCharLen)
      in if currentLine = target then Inr (offset, c')
         else (case nth_line ls currentLine of
                 None \<Rightarrow> Inl TypeError
               | Some l \<Rightarrow>
                   offsetLoop ls c' target (currentLine + 1)
                     (offset + (int (length l) + newLineCharLen))))"
  by pat_completeness auto
termination
  by (relation "measure (\<lambda>(ls, c, target, currentLine, offset). nat (int (length ls) - currentLine))")
     (auto simp: nth_line_def split: if_splits)

definition zeroBasedPosToIndex :: "TextStore \<Rightarrow> ITextPosition \<Rightarrow> int outcome" where
  "zeroBasedPosToIndex s zeroBasedPos =
     Option.bind (lineAnchor (lineToIndexCache s) (line zeroBasedPos))
       (\<lambda>(closestLineNum, closestCachedLineToIdx).
          (let offset = closestCachedLineToIdx - 1;
               cont = (closestLineNum \<le> line zeroBasedPos)
           in if cont
              then (case offsetLoop (lines s) (lineToIndexCache s) (line zeroBasedPos)
                           closestLineNum offset of
                      Inl e \<Rightarrow> throws e
                    | Inr (offset', c') \<Rightarrow>
                        returns (offset' + col zeroBasedPos) (s\<lparr>lineToIndexCache := c'\<rparr>))
              else returns (offset + col zeroBasedPos) s))"

definition positionToIndex :: "TextStore \<Rightarrow> ITextPosition \<Rightarrow> int outcome" where
  "positionToIndex s pos =
     (let zeroBasedPos = convertPosToZeroBased pos
      in case checkTextPosition s zeroBasedPos of
           Inl e \<Rightarrow> throws e
         | Inr u \<Rightarrow> zeroBasedPosToIndex s zeroBasedPos)"

subsection \<open>Mutation\<close>

definition flushCache :: "TextStore \<Rightarrow> ITextPosition \<Rightarrow> unit outcome" where
  "flushCache s from =
     andThen (zeroBasedPosToIndex s from)
       (\<lambda>idx s'. returns ()
          (s'\<lparr>lineToIndexCache := VCache_flush (lineToIndexCache s') (line from),
              indexToPosCache := SCache_flush (indexToPosCache s') (roundToLowerBlockSize idx)\<rparr>))"

definition insert_text :: "TextStore \<Rightarrow> string \<Rightarrow> ITextPosition \<Rightarrow> unit outcome" where
  "insert_text s txt at_pos =
     (if length txt = 0 then returns () s
      else (let pos = convertPosToZeroBased at_pos
            in case checkTextPosition s pos of
                 Inl e \<Rightarrow> throws e
               | Inr u \<Rightarrow>
                   andThen (flushCache s pos)
                     (\<lambda>u s'. case nth_line (lines s') (line pos) of
                                None \<Rightarrow> throws TypeError
                              | Some l \<Rightarrow>
                                  (let updated = slice_to l (col pos) @ txt @ slice_from l (col pos)
                                   in returns ()
                                        (s'\<lparr>size_store := size_store s' + int (length txt),
                                            lines := fst (splice_lines (lines s') (line pos) 1
                                                            (split_nl updated))\<rparr>)))))"

definition replace :: "TextStore \<Rightarrow> ITextRange \<Rightarrow> string \<Rightarrow> unit outcome" where
  "replace s rng txt =
     (let start0 = convertPosToZeroBased (start rng);
          end0 = convertPosToZeroBased (endp rng)
      in case checkTextPosition s start0 of
           Inl e \<Rightarrow> throws e
         | Inr u \<Rightarrow>
             (case checkTextPosition s end0 of
                Inl e \<Rightarrow> throws e
              | Inr u \<Rightarrow>
                  andThen (flushCache s start0)
                    (\<lambda>u s'. case (nth_line (lines s') (line start0),
                                   nth_line (lines s') (line end0)) of
                               (Some ls, Some le) \<Rightarrow>
                                 (let updated = slice_to ls (col start0) @ txt @ slice_from le (col end0);
                                      spliced = splice_lines (lines s') (line start0)
                                                  ((line end0 + 1) - line start0) (split_nl updated);
                                      removedLines = snd spliced
                                  in returns ()
                                       (s'\<lparr>lines := fst spliced,
                                           size_store := size_store s'
                                             - int (length (join_nl removedLines))
                                             + int (length updated)\<rparr>))
                             | _ \<Rightarrow> throws TypeError)))"

definition remove :: "TextStore \<Rightarrow> ITextRange \<Rightarrow> unit outcome" where
  "remove s rng = replace s rng []"

subsection \<open>Sequences of calls\<close>

text \<open>The calls that change the store, as data, and a sequence of them run from a state.\<close>

datatype operation =
    Insert string ITextPosition
  | Replace ITextRange string
  | Remove ITextRange
  | IndexToPosition int
  | PositionToIndex ITextPosition

definition discard :: "'a outcome \<Rightarrow> unit outcome" where
  "discard m = andThen m (\<lambda>v s. returns () s)"

fun perform :: "TextStore \<Rightarrow> operation \<Rightarrow> unit outcome" where
  "perform s (Insert txt p) = insert_text s txt p"
| "perform s (Replace rng txt) = replace s rng txt"
| "perform s (Remove rng) = remove s rng"
| "perform s (IndexToPosition i) = discard (indexToPosition s i)"
| "perform s (PositionToIndex p) = discard (positionToIndex s p)"

fun run :: "TextStore \<Rightarrow> operation list \<Rightarrow> unit outcome" where
  "run s [] = returns () s"
| "run s (x # xs) = andThen (perform s x) (\<lambda>u s'. run s' xs)"

text \<open>
  What is observed of the state after a sequence of calls that all returned:
  \<open>observe f m\<close> is \<open>f\<close> of the final state.
\<close>

definition observe :: "(TextStore \<Rightarrow> 'b) \<Rightarrow> 'a outcome \<Rightarrow> (error + 'b) option" where
  "observe f m = map_option (map_sum id (\<lambda>(v, s). f s)) m"

text \<open>The offset at which the zero-based line \<open>L\<close> begins in the joined text.\<close>

definition lineStart :: "string list \<Rightarrow> int \<Rightarrow> int" where
  "lineStart ls L = (\<Sum>l \<leftarrow> take (nat L) ls. int (length l) + 1)"

text \<open>The two round trips of the conversions.\<close>

definition positionRoundTrip :: "TextStore \<Rightarrow> ITextPosition \<Rightarrow> ITextPosition outcome" where
  "positionRoundTrip s p = andThen (positionToIndex s p) (\<lambda>i s'. indexToPosition s' i)"

definition indexRoundTrip :: "TextStore \<Rightarrow> int \<Rightarrow> int outcome" where
  "indexRoundTrip s i = andThen (indexToPosition s i) (\<lambda>p s'. positionToIndex s' p)"

text \<open>
  A replacement or removal is forward when its range does not start on a later line
  than it ends. The source does not compare the two ends of a range.
\<close>

fun forward :: "operation \<Rightarrow> bool" where
  "forward (Replace rng txt) = (line (start rng) \<le> line (endp rng))"
| "forward (Remove rng) = (line (start rng) \<le> line (endp rng))"
| "forward (Insert txt p) = True"
| "forward (IndexToPosition i) = True"
| "forward (PositionToIndex p) = True"

text \<open>The size counter agrees with the text: there is a line, and the counter is the length of the joined lines.\<close>

definition consistent :: "TextStore \<Rightarrow> bool" where
  "consistent s \<longleftrightarrow> lines s \<noteq> [] \<and> size_store s = int (length (join_nl (lines s)))"

text \<open>
  What the two caches hold when they are filled by \<^verbatim>\<open>indexToPosition\<close>. A block entry
  under the array index \<open>k\<close> is a position \<open>col\<close> characters after the start of its line,
  at the offset \<open>10 * k\<close>. A line entry is one more than the offset at which the line
  begins; \<^verbatim>\<open>zeroBasedPosToIndex\<close> subtracts the one when it reads the entry.
\<close>

definition block_cache_sound :: "TextStore \<Rightarrow> bool" where
  "block_cache_sound s \<longleftrightarrow>
     (\<forall>k p. entries (indexToPosCache s) k = Some p \<longrightarrow>
        DEFAULT_BLOCK_SIZE * k - col p = lineStart (lines s) (line p))"

definition line_cache_sound :: "TextStore \<Rightarrow> bool" where
  "line_cache_sound s \<longleftrightarrow>
     (\<forall>L v. VCache_get (lineToIndexCache s) L = Some v \<longrightarrow>
        0 \<le> L \<and> L < int (length (lines s)) \<and> v = lineStart (lines s) L + 1)"

fun from_index :: "operation \<Rightarrow> bool" where
  "from_index (IndexToPosition i) = True"
| "from_index (Insert txt p) = False"
| "from_index (Replace rng txt) = False"
| "from_index (Remove rng) = False"
| "from_index (PositionToIndex p) = False"

text \<open>
  A store as the constructor and the methods leave it: it has a line, and the block
  cache has no property under a negative key.
\<close>

definition well_formed :: "TextStore \<Rightarrow> bool" where
  "well_formed s \<longleftrightarrow> lines s \<noteq> [] \<and> (\<forall>k<0. entries (indexToPosCache s) k = None)"

text \<open>
  No line of the store holds a newline: the constructor and the edits split the text
  at every newline.
\<close>

definition split_lines :: "TextStore \<Rightarrow> bool" where
  "split_lines s \<longleftrightarrow> (\<forall>l \<in> set (lines s). newline \<notin> set l)"

text \<open>
  A bound on the number of lines that a call adds: an insertion adds one line for each
  newline of its text; a replacement puts the pieces of its text in the place of the
  lines it removes, and it removes none when its range starts on a later line than it
  ends.
\<close>

fun growth :: "operation \<Rightarrow> nat" where
  "growth (Insert txt p) = length txt"
| "growth (Replace rng txt) = length txt + 1"
| "growth (Remove rng) = 1"
| "growth (IndexToPosition i) = 0"
| "growth (PositionToIndex p) = 0"

section \<open>Properties\<close>

subsection \<open>Outcomes\<close>

lemma observe_returned:
  "observe f m = Some (Inr v) \<Longrightarrow> \<exists>u s. m = Some (Inr (u, s)) \<and> f s = v"
  by (cases m) (auto simp: observe_def map_sum_def split: sum.splits)

subsection \<open>The inner loop of \<^verbatim>\<open>indexToPosition\<close> leaves only at its stop\<close>

lemma roundToLowerBlockSize_multiple: "roundToLowerBlockSize x mod DEFAULT_BLOCK_SIZE = 0"
  by (simp add: roundToLowerBlockSize_def)

text \<open>
  The loop adds the block size to \<^verbatim>\<open>closestIndex\<close> until it is equal to
  \<^verbatim>\<open>highestIndexableStop\<close>. If it returns, it did not start beyond the stop; started
  beyond the stop, it does not return.
\<close>

lemma fillBlocks_returns_le:
  "fillBlocks c i stop n st = Some r \<Longrightarrow> i \<le> stop"
proof (rule fillBlocks.raw_induct [where P = "\<lambda>c i stop n st r. i \<le> stop"], goal_cases)
  case (1 f c' i' stop' n' st' r')
  show ?case
  proof (cases "i' = stop'")
    case True
    then show ?thesis by simp
  next
    case False
    with 1 obtain c'' where "f c'' (i' + DEFAULT_BLOCK_SIZE) stop' n' st' = Some r'"
      by (auto simp: Let_def)
    with 1 have "i' + DEFAULT_BLOCK_SIZE \<le> stop'" by blast
    then show ?thesis by (simp add: DEFAULT_BLOCK_SIZE_def)
  qed
qed

lemma fillBlocks_overshoot: "stop < i \<Longrightarrow> fillBlocks c i stop n st = None"
  using fillBlocks_returns_le [of c i stop n st] by (cases "fillBlocks c i stop n st") auto

text \<open>
  An entry of the block cache that names a line which ends before the block of the
  entry sends \<^verbatim>\<open>indexToPosition\<close> into the inner loop beyond its stop.
\<close>

lemma indexToPosition_stale_anchor:
  assumes hit: "SCache_get (indexToPosCache s) (roundToLowerBlockSize i) = Some p"
    and guard: "i \<le> size_store s"
    and ln: "nth_line (lines s) (line p) = Some l"
    and short: "roundToLowerBlockSize (roundToLowerBlockSize i - col p + (int (length l) + 1))
                  < roundToLowerBlockSize i"
  shows "indexToPosition s i = None"
proof -
  have inb: "line p < int (length (lines s))" "lines s \<noteq> []"
    using ln by (auto simp: nth_line_def split: if_splits)
  have anchor: "blockAnchor (indexToPosCache s) (roundToLowerBlockSize i)
                  = Some (roundToLowerBlockSize i, p)"
    using hit by (simp add: blockAnchor_def)
  have "walkLines s i (roundToLowerBlockSize i) (line p) (roundToLowerBlockSize i - col p) = None"
    by (subst walkLines.simps) (simp add: inb ln Let_def fillBlocks_overshoot [OF short])
  then show ?thesis
    using guard by (simp add: indexToPosition_def anchor)
qed

subsection \<open>Round trip from a position\<close>

text \<open>
  Claim C1. For every position \<open>p\<close> within bounds, \<^verbatim>\<open>positionToIndex(p)\<close> followed by
  \<^verbatim>\<open>indexToPosition\<close> gives \<open>p\<close> again, also on a freshly constructed buffer.

  On the fresh buffer \<^verbatim>\<open>"a"\<close> the round trip of \<^verbatim>\<open>{line: 1, col: 1}\<close> ends at
  \<^verbatim>\<open>{line: 1, col: 0}\<close>: no line is cached, the synthetic anchor \<^verbatim>\<open>{index: 0, line: 0}\<close>
  is read as the offset \<open>-1\<close>, and \<^verbatim>\<open>positionToIndex\<close> returns \<open>-1\<close>.
\<close>

theorem position_round_trip_fresh_buffer:
  "value_of (positionRoundTrip (new_TextStore ''a'') \<lparr>line = 1, col = 1\<rparr>)
     = Some (Inr \<lparr>line = 1, col = 0\<rparr>)"
  by code_simp

subsection \<open>Cold and warm caches\<close>

text \<open>
  Claim C2. The result of a conversion is the same on a fresh buffer and after earlier
  conversions have filled the caches.

  On the buffer \<^verbatim>\<open>"a"\<close>, \<^verbatim>\<open>positionToIndex({line: 1, col: 1})\<close> is \<open>-1\<close> when it is the first
  call and \<open>0\<close> when \<^verbatim>\<open>indexToPosition(0)\<close> was called before it.
\<close>

theorem positionToIndex_cold_and_warm:
  "value_of (positionToIndex (new_TextStore ''a'') \<lparr>line = 1, col = 1\<rparr>) = Some (Inr (- 1))
   \<and> value_of (andThen (indexToPosition (new_TextStore ''a'') 0)
                 (\<lambda>p s. positionToIndex s \<lparr>line = 1, col = 1\<rparr>)) = Some (Inr 0)"
  by code_simp

subsection \<open>\<^verbatim>\<open>getContents\<close> with a range\<close>

text \<open>
  Claim C3. \<^verbatim>\<open>getContents(range)\<close> never fails, however far out of bounds the range is;
  it clamps the line into \<open>[0, lastLine]\<close> and the column into \<open>[0, lineLength]\<close>.

  The source clamps the zero-based line into \<open>[1, lines.length]\<close> and then reads that
  line. On a buffer of one line the clamped line is always \<open>1\<close>, which is not there:
  every range fails. So does every range that ends beyond the last line of any buffer.
\<close>

theorem getContents_one_line_fails:
  "getContents (new_TextStore ''a'') (Some r) = Inl TypeError"
  by (simp add: getContents_def clampTextPosition_def clamp_def nth_line_def
        new_TextStore_def newline_def)

subsection \<open>Validation of a position\<close>

text \<open>
  Claim C4. A position with a negative zero-based line or column fails with
  \<open>InvalidPosition\<close>, a position beyond the line count or the line length fails with
  \<open>PositionOutOfRange\<close>, and validation fails in no other way.

  The range test comes first and reads the length of the line: for a 1-based line of
  zero or less, and for the line just after the last one, that line is \<^verbatim>\<open>undefined\<close>.
\<close>

theorem positionToIndex_line_errors:
  "value_of (positionToIndex s \<lparr>line = - int n, col = c\<rparr>) = Some (Inl TypeError)
   \<and> value_of (positionToIndex s \<lparr>line = int (length (lines s)) + 1, col = c\<rparr>)
       = Some (Inl TypeError)"
  by (simp add: positionToIndex_def convertPosToZeroBased_def checkTextPosition_def
        nth_line_def throws_def value_of_def)

subsection \<open>Round trip from an index\<close>

text \<open>
  A buffer of one line of 35 characters. \<^verbatim>\<open>indexToPosition(35)\<close> fills the blocks 10, 20
  and 30 and caches line 0. Inserting at the end of the line empties the line cache and
  keeps the blocks 10 and 20. Inserting a newline at \<^verbatim>\<open>{line: 1, col: 1}\<close> then finds no
  cached line: its offset is computed as \<open>-1\<close>, the block cache is cut with
  \<^verbatim>\<open>slice(0, -1)\<close>, and block 10 stays although offset 10 is on the second line now.
\<close>

lemma insert_scenario_state:
  "observe (\<lambda>s. (lines s, size_store s, SCache_get (indexToPosCache s) 10))
     (run (new_TextStore ''01234567890123456789012345678901234'')
        [IndexToPosition 35, Insert ''X'' \<lparr>line = 1, col = 36\<rparr>,
         Insert [newline] \<lparr>line = 1, col = 1\<rparr>])
   = Some (Inr ([[], ''01234567890123456789012345678901234X''], 37,
                Some \<lparr>line = 0, col = 10\<rparr>))"
  by code_simp

text \<open>
  Claim C5. For every index \<open>i\<close> with \<open>0 \<le> i \<le> size\<close>, \<^verbatim>\<open>indexToPosition(i)\<close> followed by
  \<^verbatim>\<open>positionToIndex\<close> gives \<open>i\<close> again, for any prior cache state.

  In the state above the size is 37 and the round trip of the index 10 does not return:
  \<^verbatim>\<open>indexToPosition(10)\<close> starts from the stale block 10 on the empty first line. The
  three calls before it return.
\<close>

theorem index_round_trip_after_inserts:
  "observe size_store
     (run (new_TextStore ''01234567890123456789012345678901234'')
        [IndexToPosition 35, Insert ''X'' \<lparr>line = 1, col = 36\<rparr>,
         Insert [newline] \<lparr>line = 1, col = 1\<rparr>]) = Some (Inr 37)
   \<and> andThen (run (new_TextStore ''01234567890123456789012345678901234'')
                [IndexToPosition 35, Insert ''X'' \<lparr>line = 1, col = 36\<rparr>,
                 Insert [newline] \<lparr>line = 1, col = 1\<rparr>])
       (\<lambda>u s. indexRoundTrip s 10) = None"
proof -
  from observe_returned [OF insert_scenario_state]
  obtain u s where run: "run (new_TextStore ''01234567890123456789012345678901234'')
        [IndexToPosition 35, Insert ''X'' \<lparr>line = 1, col = 36\<rparr>,
         Insert [newline] \<lparr>line = 1, col = 1\<rparr>] = Some (Inr (u, s))"
    and ls: "lines s = [[], ''01234567890123456789012345678901234X'']"
    and sz: "size_store s = 37"
    and hit: "SCache_get (indexToPosCache s) 10 = Some \<lparr>line = 0, col = 10\<rparr>"
    by auto
  have "indexToPosition s 10 = None"
    by (rule indexToPosition_stale_anchor [where p = "\<lparr>line = 0, col = 10\<rparr>" and l = "[]"])
       (simp_all add: hit sz ls roundToLowerBlockSize_def DEFAULT_BLOCK_SIZE_def nth_line_def)
  then show ?thesis
    unfolding run by (simp add: andThen_def indexRoundTrip_def observe_def sz)
qed

subsection \<open>Invalidation\<close>

text \<open>
  Claim C6. A mutation at the zero-based position \<open>p\<close> removes every entry of the line
  cache for lines from \<open>p.line\<close> on and every entry of the block cache from the block of
  \<open>p\<close>'s offset on, so that no stale entry is used afterwards.

  After \<^verbatim>\<open>indexToPosition(35)\<close> and an insertion at the end of the only line,
  \<^verbatim>\<open>flushCache\<close> at the zero-based position \<^verbatim>\<open>{line: 0, col: 0}\<close>, whose offset is \<open>0\<close>, keeps
  the entry of block 10.
\<close>

theorem flushCache_keeps_block_entry:
  "observe (\<lambda>s. SCache_get (indexToPosCache s) 10)
     (andThen (run (new_TextStore ''01234567890123456789012345678901234'')
                 [IndexToPosition 35, Insert ''X'' \<lparr>line = 1, col = 36\<rparr>])
        (\<lambda>u s. flushCache s \<lparr>line = 0, col = 0\<rparr>))
   = Some (Inr (Some \<lparr>line = 0, col = 10\<rparr>))"
  by code_simp

subsection \<open>Rounding to a double\<close>

text \<open>
  The spacing of the doubles around a scaled magnitude: \<open>ulp_exp n\<close> is the least \<open>k\<close> with
  \<open>n < 2 ^ (53 + k)\<close>.
\<close>

lemma ulp_exp_bounds:
  "n < 2 ^ (53 + ulp_exp n) \<and> (0 < ulp_exp n \<longrightarrow> 2 ^ (52 + ulp_exp n) \<le> n)"
proof (induction n rule: ulp_exp.induct)
  case (1 n)
  show ?case
  proof (cases "n < 2 ^ 53")
    case True
    then show ?thesis by (simp add: ulp_exp.simps [of n])
  next
    case False
    then have u: "ulp_exp n = Suc (ulp_exp (n div 2))" by (simp add: ulp_exp.simps [of n])
    from 1 [OF False] have
      hi: "n div 2 < 2 ^ (53 + ulp_exp (n div 2))" and
      lo: "0 < ulp_exp (n div 2) \<longrightarrow> 2 ^ (52 + ulp_exp (n div 2)) \<le> n div 2"
      by simp_all
    have "n < 2 ^ (53 + ulp_exp n)"
    proof -
      have "n < 2 * (n div 2 + 1)" by presburger
      also have "\<dots> \<le> 2 * 2 ^ (53 + ulp_exp (n div 2))"
        using hi by simp
      finally show ?thesis by (simp only: u add_Suc_right power_Suc)
    qed
    moreover have "2 ^ (52 + ulp_exp n) \<le> n"
    proof (cases "0 < ulp_exp (n div 2)")
      case True
      with lo have "2 * 2 ^ (52 + ulp_exp (n div 2)) \<le> 2 * (n div 2)" by simp
      also have "\<dots> \<le> n" by presburger
      finally show ?thesis by (simp only: u add_Suc_right power_Suc)
    next
      case False
      with \<open>\<not> n < 2 ^ 53\<close> show ?thesis by (simp only: u add_Suc_right power_Suc) simp
    qed
    ultimately show ?thesis by simp
  qed
qed

lemma ulp_exp_le: "n < 2 ^ (53 + k) \<Longrightarrow> ulp_exp n \<le> k"
proof (rule ccontr)
  assume n: "n < 2 ^ (53 + k)" and "\<not> ulp_exp n \<le> k"
  then have gt: "k < ulp_exp n" by simp
  then have "0 < ulp_exp n" by simp
  with ulp_exp_bounds [of n] have "2 ^ (52 + ulp_exp n) \<le> n" by simp
  moreover have "(2::nat) ^ (53 + k) \<le> 2 ^ (52 + ulp_exp n)"
    using gt by (intro power_increasing) auto
  ultimately show False using n by simp
qed

lemma ulp_exp_mono: "n \<le> n' \<Longrightarrow> ulp_exp n \<le> ulp_exp n'"
  using ulp_exp_bounds [of n'] by (intro ulp_exp_le) simp

lemma round_half_even_int: "round_half_even (of_int n) = n"
  by (simp add: round_half_even_def)

lemma round_half_even_ge: "of_int n \<le> y \<Longrightarrow> n \<le> round_half_even y"
proof -
  assume "of_int n \<le> y"
  then have "n \<le> \<lfloor>y\<rfloor>" by (simp add: le_floor_iff)
  then show ?thesis by (simp add: round_half_even_def Let_def)
qed

lemma round_half_even_upper: "of_int (round_half_even y) \<le> y + 1 / 2"
  by (auto simp: round_half_even_def Let_def) linarith+

lemma round_half_even_tie: "y = of_int f + 1 / 2 \<Longrightarrow> even f \<Longrightarrow> round_half_even y = f"
proof -
  assume y: "y = of_int f + 1 / 2" and e: "even f"
  have "\<lfloor>y\<rfloor> = f" unfolding y by (simp add: floor_unique)
  then show ?thesis using e by (simp add: round_half_even_def Let_def y)
qed

lemma round_half_even_nonneg: "0 \<le> y \<Longrightarrow> 0 \<le> round_half_even y"
  using round_half_even_ge [of 0 y] by simp

text \<open>
  A number whose scaled value is an integer below \<open>2 ^ 53\<close> times a power of two is a
  double, and rounding leaves it as it is; every positive double has this form; rounding
  twice is rounding once; the line numbers are doubles.
\<close>

lemma double_scale_pos: "0 < double_scale"
  by (simp add: double_scale_def)

lemma double_scale_split: "k \<le> 1074 \<Longrightarrow> double_scale = 2 ^ (1074 - k) * 2 ^ k"
  by (simp only: double_scale_def power_add [symmetric]) simp

lemma floor_scaled_lt:
  fixes y :: rat
  assumes "0 \<le> y" and "y < 2 ^ b"
  shows "nat \<lfloor>y\<rfloor> < 2 ^ b"
proof -
  have "y < of_int (2 ^ b)" using assms(2) by simp
  then have "\<lfloor>y\<rfloor> < 2 ^ b" by (simp only: floor_less_iff)
  moreover have "0 \<le> \<lfloor>y\<rfloor>" using assms(1) by simp
  ultimately show ?thesis by (simp add: nat_less_iff)
qed

lemma scaled_lt_of_floor:
  fixes y :: rat
  assumes "nat \<lfloor>y\<rfloor> < 2 ^ b"
  shows "y < 2 ^ b"
proof -
  have "\<lfloor>y\<rfloor> < 2 ^ b"
  proof (cases "0 \<le> \<lfloor>y\<rfloor>")
    case True
    with assms show ?thesis by (simp add: nat_less_iff)
  next
    case False
    then have "\<lfloor>y\<rfloor> < 0" by simp
    also have "(0::int) < 2 ^ b" by simp
    finally show ?thesis .
  qed
  then have "y < of_int (2 ^ b)" by (simp only: floor_less_iff)
  then show ?thesis by simp
qed

lemma to_double_unfold:
  assumes "0 < x"
  shows "to_double x = of_int (round_half_even (x * double_scale / 2 ^ ulp_exp (nat \<lfloor>x * double_scale\<rfloor>)))
           * 2 ^ ulp_exp (nat \<lfloor>x * double_scale\<rfloor>) / double_scale"
proof -
  have "0 < x * double_scale" using assms double_scale_pos by simp
  then have "\<bar>x * double_scale\<bar> = x * double_scale" by simp
  then show ?thesis using assms by (simp add: to_double_def Let_def)
qed

lemma to_double_representable:
  fixes n :: int
  assumes "0 < n" and "n < 2 ^ 53" and "x * double_scale = of_int n * 2 ^ j"
  shows "to_double x = x"
proof -
  define y where "y = x * double_scale"
  have y: "y = of_int n * 2 ^ j" using assms(3) by (simp add: y_def)
  have ypos: "0 < y" unfolding y using assms(1) by simp
  then have xpos: "0 < x" using double_scale_pos by (simp add: y_def zero_less_mult_iff)
  have "(of_int n :: rat) < of_int (2 ^ 53)" using assms(2) by (simp only: of_int_less_iff)
  then have "(of_int n :: rat) < 2 ^ 53" by simp
  then have "y < 2 ^ 53 * 2 ^ j"
    unfolding y by (intro mult_strict_right_mono) simp_all
  then have "y < 2 ^ (53 + j)" by (simp only: power_add)
  then have "nat \<lfloor>y\<rfloor> < 2 ^ (53 + j)" using ypos by (intro floor_scaled_lt) simp_all
  then have k: "ulp_exp (nat \<lfloor>y\<rfloor>) \<le> j" by (rule ulp_exp_le)
  define k where "k = ulp_exp (nat \<lfloor>y\<rfloor>)"
  have kj: "k \<le> j" using k by (simp add: k_def)
  have "y / 2 ^ k = of_int n * 2 ^ (j - k)"
    unfolding y using kj by (simp add: power_diff)
  also have "\<dots> = of_int (n * 2 ^ (j - k))" by simp
  finally have "round_half_even (y / 2 ^ k) = n * 2 ^ (j - k)"
    by (simp only: round_half_even_int)
  then have "of_int (round_half_even (y / 2 ^ k)) * 2 ^ k / double_scale
      = of_int n * 2 ^ (j - k) * 2 ^ k / double_scale" by simp
  also have "\<dots> = of_int n * 2 ^ j / double_scale"
    using kj by (simp add: power_add [symmetric])
  also have "\<dots> = x" using assms(3) [symmetric] double_scale_pos by simp
  finally show ?thesis
    unfolding to_double_unfold [OF xpos] y_def [symmetric] k_def [symmetric] .
qed

lemma to_double_canonical:
  assumes "0 < x" and "to_double x = x"
  shows "\<exists>n::int. 0 < n \<and> n < 2 ^ 53
           \<and> x * double_scale = of_int n * 2 ^ ulp_exp (nat \<lfloor>x * double_scale\<rfloor>)"
proof -
  define y where "y = x * double_scale"
  define k where "k = ulp_exp (nat \<lfloor>y\<rfloor>)"
  define r where "r = round_half_even (y / 2 ^ k)"
  have ypos: "0 < y" using assms(1) double_scale_pos by (simp add: y_def)
  have "to_double x = of_int r * 2 ^ k / double_scale"
    unfolding to_double_unfold [OF assms(1)] y_def [symmetric] k_def [symmetric] r_def ..
  with assms(2) have eq: "y = of_int r * 2 ^ k"
    using double_scale_pos by (simp add: y_def field_simps)
  have rpos: "0 < r"
    using ypos unfolding eq by (simp add: zero_less_mult_iff)
  have "nat \<lfloor>y\<rfloor> < 2 ^ (53 + k)" using ulp_exp_bounds [of "nat \<lfloor>y\<rfloor>"] by (simp add: k_def)
  then have "y < 2 ^ (53 + k)" by (rule scaled_lt_of_floor)
  then have "of_int r * (2::rat) ^ k < 2 ^ 53 * 2 ^ k" by (simp only: eq power_add)
  then have "(of_int r :: rat) < 2 ^ 53" by simp
  then have "(of_int r :: rat) < of_int (2 ^ 53)" by simp
  then have "r < 2 ^ 53" by (simp only: of_int_less_iff)
  with rpos eq show ?thesis unfolding y_def k_def by blast
qed

lemma round_half_even_le_floor_Suc: "round_half_even y \<le> \<lfloor>y\<rfloor> + 1"
  by (simp add: round_half_even_def Let_def)

lemma to_double_nonneg: "0 \<le> x \<Longrightarrow> 0 \<le> to_double x"
proof (cases "x = 0")
  case True
  then show ?thesis by (simp add: to_double_def)
next
  case False
  assume "0 \<le> x"
  with False have xpos: "0 < x" by simp
  have "0 \<le> x * double_scale / 2 ^ ulp_exp (nat \<lfloor>x * double_scale\<rfloor>)"
    using xpos double_scale_pos by simp
  then have "0 \<le> round_half_even (x * double_scale / 2 ^ ulp_exp (nat \<lfloor>x * double_scale\<rfloor>))"
    by (rule round_half_even_nonneg)
  then show ?thesis
    unfolding to_double_unfold [OF xpos] using double_scale_pos by simp
qed

lemma to_double_idem:
  assumes "0 < x"
  shows "to_double (to_double x) = to_double x"
proof -
  define y where "y = x * double_scale"
  define k where "k = ulp_exp (nat \<lfloor>y\<rfloor>)"
  define r where "r = round_half_even (y / 2 ^ k)"
  have ypos: "0 < y" using assms double_scale_pos by (simp add: y_def)
  have td: "to_double x = of_int r * 2 ^ k / double_scale"
    unfolding to_double_unfold [OF assms] y_def [symmetric] k_def [symmetric] r_def ..
  have scaled: "to_double x * double_scale = of_int r * 2 ^ k"
    unfolding td using double_scale_pos by simp
  have r0: "0 \<le> r" unfolding r_def using ypos by (intro round_half_even_nonneg) simp
  have "nat \<lfloor>y\<rfloor> < 2 ^ (53 + k)" using ulp_exp_bounds [of "nat \<lfloor>y\<rfloor>"] by (simp add: k_def)
  then have "y < 2 ^ (53 + k)" by (rule scaled_lt_of_floor)
  then have "y / 2 ^ k < 2 ^ 53" by (simp add: power_add field_simps)
  then have "y / 2 ^ k < of_int (2 ^ 53)" by simp
  then have "\<lfloor>y / 2 ^ k\<rfloor> < 2 ^ 53" by (simp only: floor_less_iff)
  with round_half_even_le_floor_Suc [of "y / 2 ^ k"] have r53: "r \<le> 2 ^ 53"
    unfolding r_def by linarith
  consider "r = 0" | "0 < r" "r < 2 ^ 53" | "r = 2 ^ 53" using r0 r53 by linarith
  then show ?thesis
  proof cases
    case 1
    then have z: "to_double x = 0" by (simp add: td)
    have "to_double 0 = 0" by (simp add: to_double_def)
    then show ?thesis unfolding z .
  next
    case 2
    then show ?thesis by (rule to_double_representable [OF _ _ scaled])
  next
    case 3
    have "to_double x * double_scale = of_int (2 ^ 52) * 2 ^ Suc k"
      unfolding scaled 3 by simp
    then show ?thesis by (intro to_double_representable [of "2 ^ 52" _ "Suc k"]) simp_all
  qed
qed

lemma to_double_of_int:
  assumes "0 \<le> s" and "s < 2 ^ 53"
  shows "to_double (of_int s) = of_int s"
proof (cases "s = 0")
  case True
  then show ?thesis by (simp add: to_double_def)
next
  case False
  with assms(1) have "0 < s" by simp
  moreover have "of_int s * double_scale = of_int s * 2 ^ 1074" by (simp only: double_scale_def)
  ultimately show ?thesis using assms(2) by (intro to_double_representable [of s _ 1074])
qed

subsection \<open>The line search returns\<close>

text \<open>
  One step of the search, from an integer \<open>s\<close> up to a double \<open>e\<close> above it. The
  difference is exact, and so is its half unless \<open>e\<close> is among the smallest doubles, and
  then \<open>s\<close> is \<open>0\<close>: the midpoint \<open>m\<close> is the double nearest to \<open>(e + s) / 2\<close>. It is not
  below \<open>s\<close>, and it is below \<open>e\<close> by at least the smallest double: when \<open>e\<close> is the
  double next to \<open>s\<close>, the tie is rounded to \<open>s\<close>, whose significand is even.
\<close>

lemma midpoint_between:
  fixes s :: int and e :: rat
  assumes s0: "0 \<le> s" and se: "of_int s < e" and e52: "e < 2 ^ 52" and de: "to_double e = e"
  defines "m \<equiv> to_double (to_double (to_double (e - of_int s) / 2) + of_int s)"
  shows "of_int s \<le> m \<and> m < e \<and> to_double m = m \<and> 1 \<le> (e - m) * double_scale"
proof -
  let ?S = double_scale
  have epos: "0 < e" using s0 se by (meson of_int_0_le_iff le_less_trans)
  define k where "k = ulp_exp (nat \<lfloor>e * ?S\<rfloor>)"
  from to_double_canonical [OF epos de] obtain n :: int where
    n0: "0 < n" and n53: "n < 2 ^ 53" and eS: "e * ?S = of_int n * 2 ^ k"
    unfolding k_def by blast
  have "e * ?S < 2 ^ 52 * ?S" using e52 double_scale_pos by simp
  also have "\<dots> = 2 ^ (53 + 1073)" by (simp add: double_scale_def)
  finally have "nat \<lfloor>e * ?S\<rfloor> < 2 ^ (53 + 1073)"
    using epos double_scale_pos by (intro floor_scaled_lt) simp_all
  then have k1073: "k \<le> 1073" unfolding k_def by (rule ulp_exp_le)
  define a :: int where "a = s * 2 ^ (1074 - k)"
  have sS: "of_int s * ?S = of_int a * 2 ^ k"
    using double_scale_split [of k] k1073 by (simp add: a_def)
  have a0: "0 \<le> a" using s0 by (simp add: a_def)
  have "1074 - k = Suc (1073 - k)" using k1073 by simp
  then have "a = 2 * (s * 2 ^ (1073 - k))" by (simp add: a_def)
  then have even_a: "even a" by simp
  have "of_int a * (2::rat) ^ k < of_int n * 2 ^ k"
    using se double_scale_pos unfolding sS [symmetric] eS [symmetric] by simp
  then have "(of_int a :: rat) < of_int n" by simp
  then have an: "a < n" by (simp only: of_int_less_iff)
  have dS: "(e - of_int s) * ?S = of_int (n - a) * 2 ^ k"
    using eS sS by (simp add: algebra_simps)
  have na: "0 < n - a" "n - a < 2 ^ 53" using an a0 n53 by simp_all
  have d: "to_double (e - of_int s) = e - of_int s"
    by (rule to_double_representable [OF na dS])
  define x where "x = (e + of_int s) / 2"
  have xpos: "0 < x" using epos s0 by (simp add: x_def)
  have xe: "x < e" using se by (simp add: x_def)
  have m: "m = to_double x"
  proof (cases "k = 0")
    case True
    have "s = 0"
    proof (rule ccontr)
      assume "s \<noteq> 0"
      with s0 have "1 \<le> s" by simp
      then have "1 * 2 ^ 1074 \<le> s * (2 ^ 1074 :: int)" by (intro mult_right_mono) simp_all
      then have "(2 ^ 1074 :: int) \<le> a" by (simp add: a_def True)
      moreover have "(2 ^ 53 :: int) \<le> 2 ^ 1074" by (intro power_increasing) simp_all
      ultimately show False using an n53 by linarith
    qed
    then have "m = to_double (to_double (to_double e / 2))" by (simp add: m_def)
    also have "\<dots> = to_double (to_double (e / 2))" by (simp only: de)
    also have "\<dots> = to_double (e / 2)" using epos by (intro to_double_idem) simp
    finally show ?thesis using \<open>s = 0\<close> by (simp add: x_def)
  next
    case False
    then have "k = Suc (k - 1)" by simp
    then have "(2::rat) ^ k = 2 * 2 ^ (k - 1)" by (metis power_Suc)
    then have "(e - of_int s) / 2 * ?S = of_int (n - a) * 2 ^ (k - 1)"
      using dS by simp
    then have h: "to_double ((e - of_int s) / 2) = (e - of_int s) / 2"
      by (rule to_double_representable [OF na])
    have "m = to_double ((e - of_int s) / 2 + of_int s)" unfolding m_def d h ..
    also have "(e - of_int s) / 2 + of_int s = x" by (simp add: x_def field_simps)
    finally show ?thesis .
  qed
  define kx where "kx = ulp_exp (nat \<lfloor>x * ?S\<rfloor>)"
  have "x * ?S \<le> e * ?S" using xe double_scale_pos by simp
  then have "nat \<lfloor>x * ?S\<rfloor> \<le> nat \<lfloor>e * ?S\<rfloor>" by (intro nat_mono floor_mono)
  then have kxk: "kx \<le> k" unfolding kx_def k_def by (rule ulp_exp_mono)
  define p :: int where "p = 2 ^ (k - kx)"
  have p1: "1 \<le> p" by (simp add: p_def)
  have pk: "(2::rat) ^ k = of_int p * 2 ^ kx"
    using kxk by (simp add: p_def power_add [symmetric])
  define Y where "Y = x * ?S / 2 ^ kx"
  define r where "r = round_half_even Y"
  have mr: "m = of_int r * 2 ^ kx / ?S"
    unfolding m to_double_unfold [OF xpos] kx_def [symmetric] Y_def [symmetric] r_def ..
  have "x * ?S = (of_int n * 2 ^ k + of_int a * 2 ^ k) / 2"
    using eS sS by (simp add: x_def field_simps)
  then have Y: "Y = of_int ((n + a) * p) / 2"
    by (simp add: Y_def pk field_simps)
  have "of_int (a * p) \<le> Y"
  proof -
    have "2 * (a * p) \<le> (n + a) * p" using an p1 by (simp add: algebra_simps mult_right_mono)
    then have "(of_int (2 * (a * p)) :: rat) \<le> of_int ((n + a) * p)" by (simp only: of_int_le_iff)
    then show ?thesis unfolding Y by simp
  qed
  then have "a * p \<le> r" unfolding r_def by (rule round_half_even_ge)
  then have "(of_int (a * p) :: rat) \<le> of_int r" by (simp only: of_int_le_iff)
  then have "of_int (a * p) * 2 ^ kx / ?S \<le> of_int r * 2 ^ kx / ?S"
    using double_scale_pos by (simp add: divide_right_mono)
  moreover have "of_int (a * p) * 2 ^ kx / ?S = of_int s"
    using sS pk double_scale_pos by (simp add: field_simps)
  ultimately have lower: "of_int s \<le> m" by (simp add: mr)
  have upper_r: "r \<le> n * p - 1"
  proof (cases "2 \<le> (n - a) * p")
    case True
    have "2 * Y + 1 = of_int (2 * (n * p) - (n - a) * p + 1)"
      unfolding Y by (simp add: algebra_simps)
    also have "\<dots> \<le> of_int (2 * (n * p) - 1)"
      using True by (simp only: of_int_le_iff)
    finally have "Y + 1 / 2 \<le> of_int (n * p) - 1 / 2" by simp
    with round_half_even_upper [of Y] have "(of_int r :: rat) < of_int (n * p)"
      unfolding r_def by linarith
    then have "r < n * p" by (simp only: of_int_less_iff)
    then show ?thesis by simp
  next
    case False
    moreover have "1 * 1 \<le> (n - a) * p"
      using na(1) p1 by (intro mult_mono) simp_all
    ultimately have one: "(n - a) * p = 1" by simp
    then have "p = 1" using p1 by (auto simp: zmult_eq_1_iff)
    with one have n: "n = a + 1" by simp
    have "Y = of_int a + 1 / 2" unfolding Y by (simp add: \<open>p = 1\<close> n)
    then have "r = a" unfolding r_def using even_a by (rule round_half_even_tie)
    then show ?thesis by (simp add: \<open>p = 1\<close> n)
  qed
  have "of_int r * 2 ^ kx \<le> (of_int (n * p - 1) :: rat) * 2 ^ kx"
    using upper_r by (intro mult_right_mono) (simp_all only: of_int_le_iff, simp)
  also have "\<dots> = e * ?S - 2 ^ kx"
  proof -
    have "e * ?S = of_int n * of_int p * 2 ^ kx" unfolding eS pk by simp
    then show ?thesis by (simp add: algebra_simps)
  qed
  also have "\<dots> \<le> e * ?S - 1" by simp
  finally have "m * ?S \<le> e * ?S - 1"
    using double_scale_pos by (simp add: mr)
  then have gap: "1 \<le> (e - m) * ?S" by (simp add: algebra_simps)
  have "m < e"
  proof (rule ccontr)
    assume "\<not> m < e"
    then have "(e - m) * ?S \<le> 0" using double_scale_pos by (simp add: mult_le_0_iff)
    with gap show False by simp
  qed
  moreover have "to_double m = m" unfolding m by (rule to_double_idem [OF xpos])
  ultimately show ?thesis using lower gap by simp
qed

text \<open>
  The search returns. Every call has an integer for its start: the start is replaced
  only by a midpoint that was found in the cache, and the keys of the cache are
  integers. The distance from the start to the end, counted in smallest doubles, falls
  with every call. From \<open>0\<close> to \<open>1\<close> on an empty cache that is 1075 calls.
\<close>

lemma truthy_integer_key:
  "truthy (if m = of_int \<lfloor>m\<rfloor> then VCache_get c \<lfloor>m\<rfloor> else None) = Some v \<Longrightarrow> m = of_int \<lfloor>m\<rfloor>"
  by (auto simp: truthy_def split: if_splits)

lemma findHighestCachedLineToIndex_returns:
  fixes s :: int and e :: rat
  assumes "0 \<le> s" and "of_int s \<le> e" and "e < 2 ^ 52" and "to_double e = e"
  shows "\<exists>r. findHighestCachedLineToIndex c (of_int s) e = Some r"
  using assms
proof (induction "nat \<lfloor>(e - of_int s) * double_scale\<rfloor>" arbitrary: s e rule: less_induct)
  case less
  define m where "m = to_double (to_double (to_double (e - of_int s) / 2) + of_int s)"
  define ret where "ret = truthy (if m = of_int \<lfloor>m\<rfloor> then VCache_get c \<lfloor>m\<rfloor> else None)"
  have unfold: "findHighestCachedLineToIndex c (of_int s) e =
     (if m < 0 then Some None
      else (case ret of
              Some v \<Rightarrow>
                if of_int s \<noteq> m \<and> e \<noteq> m
                then findHighestCachedLineToIndex c m e
                else Some (Some (\<lfloor>m\<rfloor>, v))
            | None \<Rightarrow>
                if of_int s \<noteq> m
                then findHighestCachedLineToIndex c (of_int s) m
                else Some None))"
    by (subst findHighestCachedLineToIndex.simps) (simp only: Let_def m_def ret_def)
  show ?case
  proof (cases "of_int s = e")
    case True
    have "s < 2 ^ 53"
    proof -
      have "(of_int s :: rat) < 2 ^ 52" using True less.prems(3) by simp
      also have "\<dots> < of_int (2 ^ 53)" by simp
      finally show ?thesis by (simp only: of_int_less_iff)
    qed
    with less.prems(1) have "to_double (of_int s) = of_int s" by (rule to_double_of_int)
    then have "m = of_int s"
      by (simp add: m_def True [symmetric] to_double_def)
    then show ?thesis
      unfolding unfold using less.prems(1) by (cases ret) auto
  next
    case False
    with less.prems(2) have lt: "of_int s < e" by simp
    from midpoint_between [OF less.prems(1) lt less.prems(3,4)]
    have sm: "of_int s \<le> m" and me: "m < e" and dm: "to_double m = m"
      and gap: "1 \<le> (e - m) * double_scale"
      unfolding m_def by simp_all
    have m0: "\<not> m < 0" using sm less.prems(1) by (meson of_int_0_le_iff le_less_trans not_less order_trans)
    show ?thesis
    proof (cases ret)
      case None
      show ?thesis
      proof (cases "of_int s = m")
        case True
        then show ?thesis unfolding unfold using m0 None by simp
      next
        case False
        have "\<lfloor>(m - of_int s) * double_scale\<rfloor> < \<lfloor>(e - of_int s) * double_scale\<rfloor>"
        proof -
          have "(m - of_int s) * double_scale + 1 \<le> (e - of_int s) * double_scale"
            using gap by (simp add: algebra_simps)
          then have "\<lfloor>(m - of_int s) * double_scale + 1\<rfloor> \<le> \<lfloor>(e - of_int s) * double_scale\<rfloor>"
            by (rule floor_mono)
          then show ?thesis by simp
        qed
        moreover have "0 \<le> \<lfloor>(m - of_int s) * double_scale\<rfloor>"
          using sm double_scale_pos by simp
        ultimately have "nat \<lfloor>(m - of_int s) * double_scale\<rfloor> < nat \<lfloor>(e - of_int s) * double_scale\<rfloor>"
          by linarith
        from less.hyps [OF this less.prems(1) sm _ dm] me less.prems(3)
        have "\<exists>r. findHighestCachedLineToIndex c (of_int s) m = Some r" by simp
        then show ?thesis unfolding unfold using m0 None False by simp
      qed
    next
      case (Some v)
      then have "m = of_int \<lfloor>m\<rfloor>" unfolding ret_def by (rule truthy_integer_key)
      then obtain j :: int where mj: "m = of_int j" ..
      show ?thesis
      proof (cases "of_int s \<noteq> m \<and> e \<noteq> m")
        case False
        then show ?thesis unfolding unfold using m0 Some by auto
      next
        case True
        with sm have "of_int s < m" by simp
        then have "(of_int s :: rat) < of_int j" unfolding mj .
        then have sj: "s < j" by (simp only: of_int_less_iff)
        then have "1 \<le> j - s" by simp
        then have "(of_int 1 :: rat) \<le> of_int (j - s)" by (simp only: of_int_le_iff)
        then have one: "1 \<le> m - of_int s" unfolding mj by simp
        have "(1::rat) \<le> double_scale" by (simp add: double_scale_def)
        with one have "1 * 1 \<le> (m - of_int s) * double_scale"
          by (intro mult_mono) simp_all
        then have "(e - m) * double_scale + 1 \<le> (e - of_int s) * double_scale"
          by (simp add: algebra_simps)
        then have "\<lfloor>(e - m) * double_scale + 1\<rfloor> \<le> \<lfloor>(e - of_int s) * double_scale\<rfloor>"
          by (rule floor_mono)
        then have "\<lfloor>(e - m) * double_scale\<rfloor> < \<lfloor>(e - of_int s) * double_scale\<rfloor>" by simp
        moreover have "0 \<le> \<lfloor>(e - m) * double_scale\<rfloor>"
          using me double_scale_pos by simp
        ultimately have "nat \<lfloor>(e - m) * double_scale\<rfloor> < nat \<lfloor>(e - of_int s) * double_scale\<rfloor>"
          by linarith
        then have dec: "nat \<lfloor>(e - of_int j) * double_scale\<rfloor> < nat \<lfloor>(e - of_int s) * double_scale\<rfloor>"
          unfolding mj .
        have j0: "0 \<le> j" using sj less.prems(1) by simp
        have je: "of_int j \<le> e" using me unfolding mj by simp
        from less.hyps [OF dec j0 je less.prems(3,4)]
        have "\<exists>r. findHighestCachedLineToIndex c m e = Some r" unfolding mj .
        then show ?thesis unfolding unfold using m0 Some True by simp
      qed
    qed
  qed
qed

text \<open>
  What the search finds is an entry of the cache, so on a cache without a number that
  passes the test \<^verbatim>\<open>!value\<close> it finds nothing, and the anchor is the synthetic one.
\<close>

lemma findHighestCachedLineToIndex_found:
  "findHighestCachedLineToIndex c st en = Some (Some (k, v)) \<Longrightarrow> truthy (VCache_get c k) = Some v"
proof (rule findHighestCachedLineToIndex.raw_induct
    [where P = "\<lambda>c st en r. \<forall>k v. r = Some (k, v) \<longrightarrow> truthy (VCache_get c k) = Some v",
     rule_format], goal_cases)
  case (1 f c st en r k v)
  have "truthy None = None" by (simp add: truthy_def)
  with 1 show ?case
    by (auto simp: Let_def split: if_splits option.splits)
qed auto

lemma line_number_is_double:
  assumes "0 \<le> L" and "L < 2 ^ 52"
  shows "to_double (of_int L) = of_int L" and "(of_int L :: rat) < 2 ^ 52"
proof -
  from assms show "to_double (of_int L) = of_int L"
    by (intro to_double_of_int) simp_all
  from assms(2) have "(of_int L :: rat) < of_int (2 ^ 52)"
    by (simp only: of_int_less_iff)
  then show "(of_int L :: rat) < 2 ^ 52" by simp
qed

lemma findHighestCachedLineToIndex_line_returns:
  assumes "0 \<le> L" and "L < 2 ^ 52"
  shows "\<exists>r. findHighestCachedLineToIndex c 0 (of_int L) = Some r"
proof -
  have "(of_int 0 :: rat) \<le> of_int L" using assms(1) by (simp only: of_int_le_iff)
  from findHighestCachedLineToIndex_returns [OF _ this line_number_is_double(2,1) [OF assms], of c]
  show ?thesis by simp
qed

lemma findHighestCachedLineToIndex_cold:
  assumes cold: "\<And>k. truthy (VCache_get c k) = None" and "0 \<le> L" and "L < 2 ^ 52"
  shows "findHighestCachedLineToIndex c 0 (of_int L) = Some None"
proof -
  from findHighestCachedLineToIndex_line_returns [OF assms(2,3)]
  obtain r where r: "findHighestCachedLineToIndex c 0 (of_int L) = Some r" ..
  show ?thesis
  proof (cases r)
    case None
    with r show ?thesis by simp
  next
    case (Some kv)
    with r findHighestCachedLineToIndex_found [of c 0 "of_int L" "fst kv" "snd kv"] cold
    show ?thesis by simp
  qed
qed

lemma lineAnchor_returns:
  assumes "0 \<le> L" and "L < 2 ^ 52"
  shows "\<exists>r. lineAnchor c L = Some r"
  using findHighestCachedLineToIndex_line_returns [OF assms, of c]
  by (auto simp: lineAnchor_def split: option.splits)

lemma zeroBasedPosToIndex_returns:
  assumes "0 \<le> line p" and "line p < 2 ^ 52"
  shows "\<exists>r. zeroBasedPosToIndex s p = Some r"
  using lineAnchor_returns [OF assms, of "lineToIndexCache s"]
  by (auto simp: zeroBasedPosToIndex_def Let_def returns_def throws_def split: sum.splits prod.splits)

subsection \<open>The size counter\<close>

text \<open>Splitting and joining are inverse, and the joined length is the sum of the line lengths plus the separators.\<close>

lemma split_nl_nonempty: "split_nl t \<noteq> []"
  by (induction t) (auto split: list.splits)

lemma join_split_nl: "join_nl (split_nl t) = t"
proof (induction t)
  case Nil
  then show ?case by simp
next
  case (Cons c cs)
  show ?case
  proof (cases "split_nl cs")
    case Nil
    then show ?thesis using split_nl_nonempty [of cs] by simp
  next
    case (Cons l ls)
    with Cons.IH show ?thesis
      by (cases ls) auto
  qed
qed

lemma join_nl_length:
  "ls \<noteq> [] \<Longrightarrow> int (length (join_nl ls)) + 1 = (\<Sum>l\<leftarrow>ls. int (length l) + 1)"
  by (induction ls rule: join_nl.induct) auto

lemma split_nl_total: "(\<Sum>l\<leftarrow>split_nl t. int (length l) + 1) = int (length t) + 1"
  using join_nl_length [OF split_nl_nonempty, of t] by (simp add: join_split_nl)

lemma consistent_new: "consistent (new_TextStore t)"
  by (simp add: consistent_def new_TextStore_def split_nl_nonempty join_split_nl)

lemma walkLines_keeps_text:
  "walkLines s i ci n st = Some (Inr (a, b, s')) \<Longrightarrow> lines s' = lines s \<and> size_store s' = size_store s"
proof (rule walkLines.raw_induct
    [where P = "\<lambda>s i ci n st r. \<forall>a b s'. r = Inr (a, b, s') \<longrightarrow> lines s' = lines s \<and> size_store s' = size_store s",
     rule_format], goal_cases)
  case (1 f s i ci n st r a b s')
  then show ?case
    by (auto simp: Let_def split: if_splits option.splits prod.splits Option.bind_splits)
qed auto


lemma indexToPosition_keeps_text:
  "indexToPosition s i = Some (Inr (p, s')) \<Longrightarrow> lines s' = lines s \<and> size_store s' = size_store s"
  by (auto simp: indexToPosition_def throws_def returns_def
      split: if_splits sum.splits prod.splits Option.bind_splits dest: walkLines_keeps_text)

lemma zeroBasedPosToIndex_keeps_text:
  "zeroBasedPosToIndex s p = Some (Inr (i, s')) \<Longrightarrow> lines s' = lines s \<and> size_store s' = size_store s"
  by (auto simp: zeroBasedPosToIndex_def throws_def returns_def Let_def
      split: if_splits sum.splits prod.splits Option.bind_splits)

lemma positionToIndex_keeps_text:
  "positionToIndex s p = Some (Inr (i, s')) \<Longrightarrow> lines s' = lines s \<and> size_store s' = size_store s"
  by (auto simp: positionToIndex_def throws_def Let_def
      split: sum.splits dest: zeroBasedPosToIndex_keeps_text)

lemma flushCache_keeps_text:
  "flushCache s p = Some (Inr (u, s')) \<Longrightarrow> lines s' = lines s \<and> size_store s' = size_store s"
  by (auto simp: flushCache_def andThen_def returns_def
      split: option.splits sum.splits prod.splits dest: zeroBasedPosToIndex_keeps_text)

lemma checkTextPosition_ok:
  "checkTextPosition s p = Inr u \<Longrightarrow>
     \<exists>l. nth_line (lines s) (line p) = Some l \<and> 0 \<le> line p \<and> line p < int (length (lines s))
         \<and> 0 \<le> col p \<and> col p \<le> int (length l)"
  by (auto simp: checkTextPosition_def nth_line_def split: if_splits option.splits)

lemma total_split3:
  assumes "a + n \<le> length ls"
  shows "(\<Sum>l\<leftarrow>ls. int (length l) + 1)
         = (\<Sum>l\<leftarrow>take a ls. int (length l) + 1) + (\<Sum>l\<leftarrow>take n (drop a ls). int (length l) + 1)
           + (\<Sum>l\<leftarrow>drop (a + n) ls. int (length l) + 1)"
proof -
  have "ls = take a ls @ take n (drop a ls) @ drop (a + n) ls"
    by (metis append_take_drop_id drop_drop add.commute)
  then have "(\<Sum>l\<leftarrow>ls. int (length l) + 1)
      = (\<Sum>l\<leftarrow>take a ls @ take n (drop a ls) @ drop (a + n) ls. int (length l) + 1)"
    by simp
  then show ?thesis by (simp only: map_append sum_list_append)
qed


lemma splice_lines_total:
  assumes "0 \<le> a" and "0 \<le> d" and "nat a + nat d \<le> length ls"
  shows "(\<Sum>l\<leftarrow>fst (splice_lines ls a d items). int (length l) + 1)
           + (\<Sum>l\<leftarrow>snd (splice_lines ls a d items). int (length l) + 1)
         = (\<Sum>l\<leftarrow>ls. int (length l) + 1) + (\<Sum>l\<leftarrow>items. int (length l) + 1)"
    and "snd (splice_lines ls a d items) = take (nat d) (drop (nat a) ls)"
    and "fst (splice_lines ls a d items) = take (nat a) ls @ items @ drop (nat a + nat d) ls"
proof -
  have fr: "rel_index (length ls) a = nat a"
    using assms by (simp add: rel_index_def)
  have cnt: "min (nat d) (length ls - nat a) = nat d"
    using assms by simp
  show 2: "snd (splice_lines ls a d items) = take (nat d) (drop (nat a) ls)"
    by (simp add: splice_lines_def Let_def fr cnt)
  show 3: "fst (splice_lines ls a d items) = take (nat a) ls @ items @ drop (nat a + nat d) ls"
    by (simp add: splice_lines_def Let_def fr cnt)
  show "(\<Sum>l\<leftarrow>fst (splice_lines ls a d items). int (length l) + 1)
           + (\<Sum>l\<leftarrow>snd (splice_lines ls a d items). int (length l) + 1)
         = (\<Sum>l\<leftarrow>ls. int (length l) + 1) + (\<Sum>l\<leftarrow>items. int (length l) + 1)"
    unfolding 2 3 using total_split3 [OF assms(3)] by simp
qed

lemma slice_around:
  "0 \<le> c \<Longrightarrow> c \<le> int (length l) \<Longrightarrow> length (slice_to l c) = nat c \<and> length (slice_from l c) = length l - nat c"
  by (auto simp: slice_to_def slice_from_def)

lemma insert_text_consistent:
  assumes ins: "insert_text s txt p = Some (Inr (u, s'))" and inv: "consistent s"
  shows "consistent s'"
proof (cases "txt = []")
  case True
  with ins inv show ?thesis by (simp add: insert_text_def returns_def)
next
  case False
  define pos where "pos = convertPosToZeroBased p"
  from ins False obtain s1 l where
    chk: "checkTextPosition s pos = Inr ()" and
    fl: "flushCache s pos = Some (Inr ((), s1))" and
    ln: "nth_line (lines s1) (line pos) = Some l" and
    s': "s' = s1\<lparr>size_store := size_store s1 + int (length txt),
                 lines := fst (splice_lines (lines s1) (line pos) 1
                   (split_nl (slice_to l (col pos) @ txt @ slice_from l (col pos))))\<rparr>"
    by (auto simp: insert_text_def pos_def Let_def andThen_def returns_def throws_def
        split: sum.splits option.splits prod.splits)
  from flushCache_keeps_text [OF fl] have same: "lines s1 = lines s" "size_store s1 = size_store s"
    by simp_all
  from checkTextPosition_ok [OF chk] ln same
  have b: "0 \<le> line pos" "line pos < int (length (lines s))" "0 \<le> col pos" "col pos \<le> int (length l)"
    by auto
  let ?items = "split_nl (slice_to l (col pos) @ txt @ slice_from l (col pos))"
  have fit: "nat (line pos) + nat 1 \<le> length (lines s)" using b by simp
  note sp = splice_lines_total [OF b(1) _ fit, of ?items, simplified]
  have l: "take (Suc 0) (drop (nat (line pos)) (lines s)) = [l]"
    using ln same b by (auto simp: nth_line_def take_Suc_conv_app_nth hd_drop_conv_nth
        split: if_splits intro: take_Suc_conv_app_nth)
  have ne: "lines s' \<noteq> []"
    by (simp add: s' same sp(3) split_nl_nonempty)
  have "int (length (join_nl (lines s'))) + 1 = (\<Sum>l\<leftarrow>lines s'. int (length l) + 1)"
    by (rule join_nl_length [OF ne])
  moreover have "int (length (join_nl (lines s))) + 1 = (\<Sum>l\<leftarrow>lines s. int (length l) + 1)"
    using inv by (intro join_nl_length) (simp add: consistent_def)
  moreover have "lines s' = fst (splice_lines (lines s) (line pos) 1 ?items)"
    by (simp add: s' same)
  ultimately have "int (length (join_nl (lines s'))) = size_store s + int (length txt)"
    using sp(1) inv slice_around [OF b(3,4)] b
    by (simp add: sp(2) l split_nl_total consistent_def)
  then show ?thesis using ne by (simp add: consistent_def s' same)
qed


lemma replace_consistent:
  assumes rep: "replace s rng txt = Some (Inr (u, s'))"
    and fw: "line (start rng) \<le> line (endp rng)"
    and inv: "consistent s"
  shows "consistent s'"
proof -
  define start0 where "start0 = convertPosToZeroBased (start rng)"
  define end0 where "end0 = convertPosToZeroBased (endp rng)"
  from rep obtain s1 ls le where
    chk: "checkTextPosition s start0 = Inr ()" "checkTextPosition s end0 = Inr ()" and
    fl: "flushCache s start0 = Some (Inr ((), s1))" and
    ln: "nth_line (lines s1) (line start0) = Some ls" "nth_line (lines s1) (line end0) = Some le" and
    s': "s' = s1\<lparr>lines := fst (splice_lines (lines s1) (line start0) ((line end0 + 1) - line start0)
                   (split_nl (slice_to ls (col start0) @ txt @ slice_from le (col end0)))),
                 size_store := size_store s1
                   - int (length (join_nl (snd (splice_lines (lines s1) (line start0)
                        ((line end0 + 1) - line start0)
                        (split_nl (slice_to ls (col start0) @ txt @ slice_from le (col end0)))))))
                   + int (length (slice_to ls (col start0) @ txt @ slice_from le (col end0)))\<rparr>"
    by (auto simp: replace_def start0_def end0_def Let_def andThen_def returns_def throws_def
        split: sum.splits option.splits prod.splits)
  from flushCache_keeps_text [OF fl] have same: "lines s1 = lines s" "size_store s1 = size_store s"
    by simp_all
  from checkTextPosition_ok [OF chk(1)] checkTextPosition_ok [OF chk(2)]
  have b: "0 \<le> line start0" "line end0 < int (length (lines s))"
    by auto
  have fw0: "line start0 \<le> line end0"
    using fw by (simp add: start0_def end0_def convertPosToZeroBased_def)
  let ?upd = "slice_to ls (col start0) @ txt @ slice_from le (col end0)"
  let ?d = "(line end0 + 1) - line start0"
  have d: "0 \<le> ?d" "0 < nat ?d" using fw0 by simp_all
  have fit: "nat (line start0) + nat ?d \<le> length (lines s)" using b fw0 by simp
  note sp = splice_lines_total [OF b(1) d(1) fit, of "split_nl ?upd"]
  have rem_ne: "snd (splice_lines (lines s) (line start0) ?d (split_nl ?upd)) \<noteq> []"
    unfolding sp(2) using d(2) fit by auto
  have ne: "lines s' \<noteq> []"
    by (simp add: s' same sp(3) split_nl_nonempty)
  have new: "int (length (join_nl (lines s'))) + 1 = (\<Sum>l\<leftarrow>lines s'. int (length l) + 1)"
    by (rule join_nl_length [OF ne])
  have old: "int (length (join_nl (lines s))) + 1 = (\<Sum>l\<leftarrow>lines s. int (length l) + 1)"
    using inv by (intro join_nl_length) (simp add: consistent_def)
  have ls': "lines s' = fst (splice_lines (lines s) (line start0) ?d (split_nl ?upd))"
    by (simp add: s' same)
  have "size_store s' = int (length (join_nl (lines s')))"
    using sp(1) new old join_nl_length [OF rem_ne] inv
    unfolding ls' [symmetric]
    by (simp add: s' same split_nl_total consistent_def)
  then show ?thesis using ne by (simp add: consistent_def)
qed

lemma perform_consistent:
  assumes "perform s x = Some (Inr (u, s'))" and "forward x" and "consistent s"
  shows "consistent s'"
proof (cases x)
  case (Insert t p)
  with assms show ?thesis
    by (auto dest: insert_text_consistent)
next
  case (Replace rng t)
  with assms show ?thesis
    by (auto dest: replace_consistent)
next
  case (Remove rng)
  with assms show ?thesis
    by (auto simp: remove_def dest: replace_consistent)
next
  case (IndexToPosition i)
  with assms show ?thesis
    by (auto simp: discard_def andThen_def returns_def consistent_def
        split: option.splits sum.splits prod.splits dest!: indexToPosition_keeps_text)
next
  case (PositionToIndex p)
  with assms show ?thesis
    by (auto simp: discard_def andThen_def returns_def consistent_def
        split: option.splits sum.splits prod.splits dest!: positionToIndex_keeps_text)
qed

lemma run_consistent:
  "run s xs = Some (Inr (u, s')) \<Longrightarrow> list_all forward xs \<Longrightarrow> consistent s \<Longrightarrow> consistent s'"
proof (induction xs arbitrary: s)
  case Nil
  then show ?case by (simp add: returns_def)
next
  case (Cons x xs)
  from Cons.prems(1) obtain s1 where
    step: "perform s x = Some (Inr ((), s1))" and rest: "run s1 xs = Some (Inr (u, s'))"
    by (auto simp: andThen_def split: option.splits sum.splits prod.splits)
  from perform_consistent [OF step] Cons.prems have "consistent s1" by simp
  with Cons.IH [OF rest] Cons.prems show ?case by simp
qed

text \<open>
  The conversion of a position and the edits return or throw, on every store of at
  most \<open>2 ^ 52\<close> lines.
\<close>

lemma checked_line_bound:
  assumes "checkTextPosition s p = Inr u" and "int (length (lines s)) \<le> 2 ^ 52"
  shows "0 \<le> line p \<and> line p < 2 ^ 52"
  using checkTextPosition_ok [OF assms(1)] assms(2) by auto

lemma positionToIndex_returns:
  assumes "int (length (lines s)) \<le> 2 ^ 52"
  shows "\<exists>r. positionToIndex s p = Some r"
proof (cases "checkTextPosition s (convertPosToZeroBased p)")
  case (Inl e)
  then show ?thesis by (simp add: positionToIndex_def throws_def)
next
  case (Inr u)
  from checked_line_bound [OF this assms]
  have "\<exists>r. zeroBasedPosToIndex s (convertPosToZeroBased p) = Some r"
    by (intro zeroBasedPosToIndex_returns) simp_all
  with Inr show ?thesis by (simp add: positionToIndex_def)
qed

lemma flushCache_returns:
  assumes "0 \<le> line p" and "line p < 2 ^ 52"
  shows "\<exists>r. flushCache s p = Some r"
  using zeroBasedPosToIndex_returns [OF assms, of s]
  by (auto simp: flushCache_def andThen_def returns_def split: sum.splits prod.splits)

lemma insert_text_returns:
  assumes "int (length (lines s)) \<le> 2 ^ 52"
  shows "\<exists>r. insert_text s txt p = Some r"
proof (cases "checkTextPosition s (convertPosToZeroBased p)")
  case (Inl e)
  then show ?thesis by (simp add: insert_text_def throws_def returns_def)
next
  case (Inr u)
  from checked_line_bound [OF this assms]
  have "\<exists>r. flushCache s (convertPosToZeroBased p) = Some r"
    by (intro flushCache_returns) simp_all
  with Inr show ?thesis
    by (auto simp: insert_text_def andThen_def throws_def returns_def Let_def
        split: sum.splits prod.splits option.splits)
qed

lemma replace_returns:
  assumes "int (length (lines s)) \<le> 2 ^ 52"
  shows "\<exists>r. replace s rng txt = Some r"
proof (cases "checkTextPosition s (convertPosToZeroBased (start rng))")
  case (Inl e)
  then show ?thesis by (simp add: replace_def throws_def)
next
  case (Inr u)
  from checked_line_bound [OF this assms]
  have "\<exists>r. flushCache s (convertPosToZeroBased (start rng)) = Some r"
    by (intro flushCache_returns) simp_all
  with Inr show ?thesis
    by (auto simp: replace_def andThen_def throws_def returns_def Let_def
        split: sum.splits prod.splits option.splits)
qed

lemma perform_returns:
  assumes "\<not> from_index x" and "int (length (lines s)) \<le> 2 ^ 52"
  shows "\<exists>r. perform s x = Some r"
proof (cases x)
  case (Insert t p)
  with insert_text_returns [OF assms(2), of t p] show ?thesis by simp
next
  case (Replace rng t)
  with replace_returns [OF assms(2), of rng t] show ?thesis by simp
next
  case (Remove rng)
  with replace_returns [OF assms(2), of rng "[]"] show ?thesis by (simp add: remove_def)
next
  case (IndexToPosition i)
  with assms show ?thesis by simp
next
  case (PositionToIndex p)
  with positionToIndex_returns [OF assms(2), of p] show ?thesis
    by (auto simp: discard_def andThen_def returns_def split: sum.splits prod.splits)
qed

text \<open>
  The lines stay free of newlines, and a call adds at most \<open>growth\<close> lines. So every
  sequence of edits and position conversions returns or throws, as long as the text
  stays below \<open>2 ^ 52\<close> lines.
\<close>

lemma split_nl_pieces: "l \<in> set (split_nl t) \<Longrightarrow> newline \<notin> set l"
proof (induction t arbitrary: l)
  case Nil
  then show ?case by simp
next
  case (Cons c cs)
  then show ?case
    by (cases "split_nl cs") (auto split: if_splits)
qed

lemma split_nl_length: "length (split_nl t) = Suc (length (filter (\<lambda>c. c = newline) t))"
proof (induction t)
  case Nil
  then show ?case by simp
next
  case (Cons c cs)
  then show ?case
    by (cases "split_nl cs") auto
qed

lemma split_nl_around:
  assumes "newline \<notin> set a" and "newline \<notin> set b"
  shows "length (split_nl (a @ txt @ b)) \<le> Suc (length txt)"
proof -
  have "filter (\<lambda>c. c = newline) a = []" "filter (\<lambda>c. c = newline) b = []"
    using assms by (auto simp: filter_empty_conv)
  then have "length (split_nl (a @ txt @ b)) = Suc (length (filter (\<lambda>c. c = newline) txt))"
    by (simp add: split_nl_length)
  then show ?thesis by simp
qed

lemma slice_subset: "set (slice_to l c) \<subseteq> set l" "set (slice_from l c) \<subseteq> set l"
  by (auto simp: slice_to_def slice_from_def dest: in_set_takeD in_set_dropD)

lemma nth_line_member: "nth_line ls k = Some l \<Longrightarrow> l \<in> set ls"
  by (auto simp: nth_line_def split: if_splits)

lemma splice_lines_bound:
  "length (fst (splice_lines ls a d items)) \<le> length ls + length items"
  "set (fst (splice_lines ls a d items)) \<subseteq> set ls \<union> set items"
  by (auto simp: splice_lines_def Let_def dest: in_set_takeD in_set_dropD)

lemma insert_text_growth:
  assumes ins: "insert_text s txt p = Some (Inr (u, s'))" and inv: "split_lines s"
  shows "split_lines s' \<and> length (lines s') \<le> length (lines s) + length txt"
proof (cases "txt = []")
  case True
  with ins inv show ?thesis by (simp add: insert_text_def returns_def)
next
  case False
  define pos where "pos = convertPosToZeroBased p"
  from ins False obtain s1 l where
    chk: "checkTextPosition s pos = Inr ()" and
    fl: "flushCache s pos = Some (Inr ((), s1))" and
    ln: "nth_line (lines s1) (line pos) = Some l" and
    s': "lines s' = fst (splice_lines (lines s1) (line pos) 1
                   (split_nl (slice_to l (col pos) @ txt @ slice_from l (col pos))))"
    by (auto simp: insert_text_def pos_def Let_def andThen_def returns_def throws_def
        split: sum.splits option.splits prod.splits)
  from flushCache_keeps_text [OF fl] have same: "lines s1 = lines s"
    by simp
  from checkTextPosition_ok [OF chk]
  have b: "0 \<le> line pos" "line pos < int (length (lines s))"
    by auto
  let ?items = "split_nl (slice_to l (col pos) @ txt @ slice_from l (col pos))"
  have fit: "nat (line pos) + nat 1 \<le> length (lines s)" using b by simp
  note sp = splice_lines_total(3) [OF b(1) _ fit, of ?items, simplified]
  have "newline \<notin> set l"
    using nth_line_member [OF ln] inv by (simp add: same split_lines_def)
  with slice_subset [of l "col pos"]
  have "newline \<notin> set (slice_to l (col pos))" "newline \<notin> set (slice_from l (col pos))"
    by auto
  from split_nl_around [OF this, of "txt"] have items: "length ?items \<le> Suc (length txt)" .
  have len: "length (lines s') \<le> length (lines s) + length txt"
    using items fit by (simp add: s' same sp)
  have "split_lines s'"
    using inv splice_lines_bound(2) [of "lines s" "line pos" 1 ?items] split_nl_pieces
    by (auto simp: split_lines_def s' same)
  with len show ?thesis by simp
qed

lemma replace_growth:
  assumes rep: "replace s rng txt = Some (Inr (u, s'))" and inv: "split_lines s"
  shows "split_lines s' \<and> length (lines s') \<le> length (lines s) + length txt + 1"
proof -
  define start0 where "start0 = convertPosToZeroBased (start rng)"
  define end0 where "end0 = convertPosToZeroBased (endp rng)"
  from rep obtain s1 ls le where
    fl: "flushCache s start0 = Some (Inr ((), s1))" and
    ln: "nth_line (lines s1) (line start0) = Some ls" "nth_line (lines s1) (line end0) = Some le" and
    s': "lines s' = fst (splice_lines (lines s1) (line start0) ((line end0 + 1) - line start0)
                   (split_nl (slice_to ls (col start0) @ txt @ slice_from le (col end0))))"
    by (auto simp: replace_def start0_def end0_def Let_def andThen_def returns_def throws_def
        split: sum.splits option.splits prod.splits)
  from flushCache_keeps_text [OF fl] have same: "lines s1 = lines s"
    by simp
  let ?items = "split_nl (slice_to ls (col start0) @ txt @ slice_from le (col end0))"
  have "newline \<notin> set ls" "newline \<notin> set le"
    using nth_line_member [OF ln(1)] nth_line_member [OF ln(2)] inv
    by (simp_all add: same split_lines_def)
  with slice_subset(1) [of ls "col start0"] slice_subset(2) [of le "col end0"]
  have "newline \<notin> set (slice_to ls (col start0))" "newline \<notin> set (slice_from le (col end0))"
    by auto
  from split_nl_around [OF this, of "txt"] have items: "length ?items \<le> Suc (length txt)" .
  have len: "length (lines s') \<le> length (lines s) + length txt + 1"
    using items splice_lines_bound(1) [of "lines s" "line start0" "(line end0 + 1) - line start0" ?items]
    by (simp add: s' same)
  have "split_lines s'"
    using inv splice_lines_bound(2) [of "lines s" "line start0" "(line end0 + 1) - line start0" ?items]
      split_nl_pieces
    by (auto simp: split_lines_def s' same)
  with len show ?thesis by simp
qed

lemma perform_growth:
  assumes "perform s x = Some (Inr (u, s'))" and "\<not> from_index x" and "split_lines s"
  shows "split_lines s' \<and> length (lines s') \<le> length (lines s) + growth x"
proof (cases x)
  case (Insert t p)
  with assms insert_text_growth [of s t p u s'] show ?thesis by simp
next
  case (Replace rng t)
  with assms replace_growth [of s rng t u s'] show ?thesis by simp
next
  case (Remove rng)
  with assms replace_growth [of s rng "[]" u s'] show ?thesis by (simp add: remove_def)
next
  case (IndexToPosition i)
  with assms show ?thesis by simp
next
  case (PositionToIndex p)
  with assms show ?thesis
    by (auto simp: discard_def andThen_def returns_def split_lines_def
        split: option.splits sum.splits prod.splits dest!: positionToIndex_keeps_text)
qed

lemma run_returns:
  assumes "list_all (\<lambda>x. \<not> from_index x) xs" and "split_lines s"
    and "int (length (lines s)) + (\<Sum>x\<leftarrow>xs. int (growth x)) \<le> 2 ^ 52"
  shows "\<exists>r. run s xs = Some r"
  using assms
proof (induction xs arbitrary: s)
  case Nil
  then show ?case by (simp add: returns_def)
next
  case (Cons x xs)
  have nonneg: "0 \<le> (\<Sum>x\<leftarrow>xs. int (growth x))"
    by (rule sum_list_nonneg) auto
  with Cons.prems have here: "int (length (lines s)) \<le> 2 ^ 52" by simp
  from Cons.prems have x: "\<not> from_index x" by simp
  from perform_returns [OF x here] obtain r where r: "perform s x = Some r" ..
  show ?case
  proof (cases r)
    case (Inl e)
    with r show ?thesis by (simp add: andThen_def)
  next
    case (Inr us)
    obtain u s1 where us: "us = (u, s1)" by (cases us)
    from r Inr us have step: "perform s x = Some (Inr (u, s1))" by simp
    from perform_growth [OF step x Cons.prems(2)]
    have inv: "split_lines s1" and len: "length (lines s1) \<le> length (lines s) + growth x"
      by simp_all
    from len have "int (length (lines s1)) \<le> int (length (lines s)) + int (growth x)" by simp
    with Cons.prems(3)
    have "int (length (lines s1)) + (\<Sum>x\<leftarrow>xs. int (growth x)) \<le> 2 ^ 52" by simp
    from Cons.IH [OF _ inv this] Cons.prems(1)
    have "\<exists>r. run s1 xs = Some r" by simp
    with step show ?thesis by (simp add: andThen_def)
  qed
qed

lemma new_TextStore_split_lines:
  "split_lines (new_TextStore t) \<and> length (lines (new_TextStore t)) \<le> Suc (length t)"
  by (auto simp: split_lines_def new_TextStore_def split_nl_length dest: split_nl_pieces
      intro: le_trans [OF length_filter_le])

lemma edits_return:
  assumes "list_all (\<lambda>x. \<not> from_index x) xs"
    and "int (length t) + 1 + (\<Sum>x\<leftarrow>xs. int (growth x)) \<le> 2 ^ 52"
  shows "\<exists>r. run (new_TextStore t) xs = Some r"
proof -
  from new_TextStore_split_lines [of t]
  have inv: "split_lines (new_TextStore t)"
    and "int (length (lines (new_TextStore t))) \<le> int (length t) + 1"
    by simp_all
  with assms(2)
  have "int (length (lines (new_TextStore t))) + (\<Sum>x\<leftarrow>xs. int (growth x)) \<le> 2 ^ 52"
    by simp
  from run_returns [OF assms(1) inv this] show ?thesis .
qed

text \<open>
  On a line cache without a number that passes the test, the offset of a position is
  counted from the synthetic anchor, that is from \<open>-1\<close> on line \<open>0\<close>.
\<close>

lemma lineAnchor_no_entry:
  assumes "\<forall>k. truthy (VCache_get c k) = None" and "0 \<le> L" and "L < 2 ^ 52"
  shows "lineAnchor c L = Some (0, 0)"
  unfolding lineAnchor_def
  using assms(1) findHighestCachedLineToIndex_cold [of c L] assms(2,3) by simp

lemma zeroBasedPosToIndex_no_entry:
  assumes "\<forall>k. truthy (VCache_get (lineToIndexCache s) k) = None"
    and "0 \<le> line p" and "line p < 2 ^ 52"
  shows "zeroBasedPosToIndex s p =
           (case offsetLoop (lines s) (lineToIndexCache s) (line p) 0 (- 1) of
              Inl e \<Rightarrow> throws e
            | Inr (offset', c') \<Rightarrow> returns (offset' + col p) (s\<lparr>lineToIndexCache := c'\<rparr>))"
  by (simp add: zeroBasedPosToIndex_def lineAnchor_no_entry [OF assms] assms(2) Let_def
      del: offsetLoop.simps)

lemma flushCache_no_entry:
  assumes "\<forall>k. truthy (VCache_get (lineToIndexCache s) k) = None"
    and "0 \<le> line p" and "line p < 2 ^ 52"
  shows "flushCache s p =
           (case offsetLoop (lines s) (lineToIndexCache s) (line p) 0 (- 1) of
              Inl e \<Rightarrow> throws e
            | Inr (offset', c') \<Rightarrow>
                returns ()
                  (s\<lparr>lineToIndexCache := VCache_flush c' (line p),
                     indexToPosCache := SCache_flush (indexToPosCache s)
                                          (roundToLowerBlockSize (offset' + col p))\<rparr>))"
  by (simp add: flushCache_def zeroBasedPosToIndex_no_entry [OF assms] andThen_def returns_def throws_def
      split: sum.splits del: offsetLoop.simps)

text \<open>
  Two calls on the fresh buffer \<^verbatim>\<open>"hello\nworld"\<close>, each with a search from \<open>0\<close> to \<open>1\<close>:
  \<^verbatim>\<open>positionToIndex({line: 2, col: 1})\<close> returns 5, and \<^verbatim>\<open>insert("X", {line: 2, col: 1})\<close>
  leaves the text \<^verbatim>\<open>"hello\nXworld"\<close> and the size 12.
\<close>

lemma second_line_offset_fresh_buffer:
  "value_of (positionToIndex (new_TextStore (''hello'' @ [newline] @ ''world'')) \<lparr>line = 2, col = 1\<rparr>)
   = Some (Inr 5)"
  by (simp add: value_of_def positionToIndex_def convertPosToZeroBased_def checkTextPosition_def
      zeroBasedPosToIndex_no_entry new_TextStore_def nth_line_def newline_def returns_def throws_def
      Let_def truthy_def VCache_get_def js_empty_def)

lemma second_line_insert_fresh_buffer:
  "observe (\<lambda>s. (getSize s, getContents s None))
     (run (new_TextStore (''hello'' @ [newline] @ ''world''))
        [Insert ''X'' \<lparr>line = 2, col = 1\<rparr>])
   = Some (Inr (12, Inr (''hello'' @ [newline] @ ''Xworld'')))"
  by (simp add: observe_def andThen_def insert_text_def flushCache_no_entry convertPosToZeroBased_def
      checkTextPosition_def new_TextStore_def nth_line_def newline_def returns_def throws_def Let_def
      splice_lines_def rel_index_def slice_to_def slice_from_def getSize_def getContents_def
      truthy_def VCache_get_def js_empty_def)

text \<open>
  Claim C7. After construction and after every sequence of successful \<^verbatim>\<open>insert\<close>,
  \<^verbatim>\<open>replace\<close> and \<^verbatim>\<open>remove\<close> calls, \<^verbatim>\<open>getSize()\<close> is the length of \<^verbatim>\<open>getContents()\<close>.

  As stated the claim fails for a range that starts on a later line than it ends: the
  splice then removes no line and inserts at least one, and the separator that comes
  with it is not counted. On the fresh buffer \<^verbatim>\<open>"a\nb"\<close>, replacing the range from
  \<^verbatim>\<open>{line: 2, col: 1}\<close> to \<^verbatim>\<open>{line: 1, col: 1}\<close> by \<^verbatim>\<open>"c"\<close> returns and gives the text
  \<^verbatim>\<open>"a\nca\nb"\<close> of length 6 and the size 5.
\<close>

theorem size_after_backward_replace:
  "observe (\<lambda>s. (getSize s, map_sum id (\<lambda>c. int (length c)) (getContents s None)))
     (run (new_TextStore (''a'' @ [newline] @ ''b''))
        [Replace \<lparr>start = \<lparr>line = 2, col = 1\<rparr>, endp = \<lparr>line = 1, col = 1\<rparr>\<rparr> ''c''])
   = Some (Inr (5, Inr 6))"
  by (simp add: observe_def andThen_def replace_def flushCache_no_entry convertPosToZeroBased_def
      checkTextPosition_def new_TextStore_def nth_line_def newline_def returns_def throws_def Let_def
      splice_lines_def rel_index_def slice_to_def slice_from_def getSize_def getContents_def
      truthy_def VCache_get_def js_empty_def)

text \<open>
  Claim C7, amended. After construction and after every sequence of successful calls
  (conversions included) in which no replaced or removed range starts on a later line
  than it ends, \<^verbatim>\<open>getSize()\<close> is the length of \<^verbatim>\<open>getContents()\<close>.
\<close>

theorem size_is_content_length:
  assumes "list_all forward xs" and "run (new_TextStore t) xs = Some (Inr (u, s))"
  shows "\<exists>c. getContents s None = Inr c \<and> getSize s = int (length c)"
  using run_consistent [OF assms(2,1) consistent_new]
  by (simp add: getContents_def getSize_def consistent_def)

text \<open>
  An insertion on the second line of the fresh buffer \<^verbatim>\<open>"hello\nworld"\<close>, then a
  replacement of the whole text.
\<close>

lemma size_scenario_text:
  "observe (\<lambda>s. getContents s None)
     (run (new_TextStore (''hello'' @ [newline] @ ''world''))
        [Insert ''X'' \<lparr>line = 2, col = 1\<rparr>,
         Replace \<lparr>start = \<lparr>line = 1, col = 1\<rparr>, endp = \<lparr>line = 2, col = 7\<rparr>\<rparr> ''HI''])
   = Some (Inr (Inr ''HI''))"
  by (simp add: observe_def andThen_def insert_text_def replace_def flushCache_no_entry
      convertPosToZeroBased_def checkTextPosition_def new_TextStore_def nth_line_def newline_def
      returns_def throws_def Let_def splice_lines_def rel_index_def slice_to_def slice_from_def
      getSize_def getContents_def truthy_def VCache_get_def VCache_set_def VCache_flush_def
      js_assign_def js_slice0_def js_empty_def SCache_flush_def roundToLowerBlockSize_def
      DEFAULT_BLOCK_SIZE_def)

theorem size_is_content_length_witness:
  "\<exists>s. run (new_TextStore (''hello'' @ [newline] @ ''world''))
          [Insert ''X'' \<lparr>line = 2, col = 1\<rparr>,
           Replace \<lparr>start = \<lparr>line = 1, col = 1\<rparr>, endp = \<lparr>line = 2, col = 7\<rparr>\<rparr> ''HI'']
        = Some (Inr ((), s))
      \<and> getContents s None = Inr ''HI'' \<and> getSize s = 2"
proof -
  from observe_returned [OF size_scenario_text]
  obtain u s where run: "run (new_TextStore (''hello'' @ [newline] @ ''world''))
          [Insert ''X'' \<lparr>line = 2, col = 1\<rparr>,
           Replace \<lparr>start = \<lparr>line = 1, col = 1\<rparr>, endp = \<lparr>line = 2, col = 7\<rparr>\<rparr> ''HI'']
        = Some (Inr (u, s))"
    and contents: "getContents s None = Inr ''HI''"
    by auto
  have "list_all forward
          [Insert ''X'' \<lparr>line = 2, col = 1\<rparr>,
           Replace \<lparr>start = \<lparr>line = 1, col = 1\<rparr>, endp = \<lparr>line = 2, col = 7\<rparr>\<rparr> ''HI'']"
    by simp
  from size_is_content_length [OF this run] contents have "getSize s = 2"
    by auto
  with run contents show ?thesis by auto
qed

subsection \<open>Termination\<close>

lemma remove_scenario_state:
  "observe (\<lambda>s. (lines s, size_store s, SCache_get (indexToPosCache s) 10))
     (run (new_TextStore (''0123456789012345678901234567890123456789'' @ [newline] @ ''abcdefghijklmnop''))
        [IndexToPosition 35,
         Remove \<lparr>start = \<lparr>line = 1, col = 36\<rparr>, endp = \<lparr>line = 1, col = 36\<rparr>\<rparr>,
         Remove \<lparr>start = \<lparr>line = 1, col = 1\<rparr>, endp = \<lparr>line = 1, col = 36\<rparr>\<rparr>])
   = Some (Inr ([''56789'', ''abcdefghijklmnop''], 22, Some \<lparr>line = 0, col = 10\<rparr>))"
  by code_simp

text \<open>
  Claim C8. Every public operation runs to completion, returning or raising, for every
  input.

  A buffer of two lines, the first of 40 characters. After \<^verbatim>\<open>indexToPosition(35)\<close>, an
  empty removal at column 36 and the removal of the first 35 characters, block 10 is
  still cached for line 0, which is 5 characters long now. The size is 22, and
  \<^verbatim>\<open>indexToPosition(12)\<close> does not return: its inner loop starts at 10 with the stop 0.
\<close>

theorem indexToPosition_does_not_return:
  "observe size_store
     (run (new_TextStore (''0123456789012345678901234567890123456789'' @ [newline] @ ''abcdefghijklmnop''))
        [IndexToPosition 35,
         Remove \<lparr>start = \<lparr>line = 1, col = 36\<rparr>, endp = \<lparr>line = 1, col = 36\<rparr>\<rparr>,
         Remove \<lparr>start = \<lparr>line = 1, col = 1\<rparr>, endp = \<lparr>line = 1, col = 36\<rparr>\<rparr>]) = Some (Inr 22)
   \<and> andThen (run (new_TextStore (''0123456789012345678901234567890123456789'' @ [newline] @ ''abcdefghijklmnop''))
        [IndexToPosition 35,
         Remove \<lparr>start = \<lparr>line = 1, col = 36\<rparr>, endp = \<lparr>line = 1, col = 36\<rparr>\<rparr>,
         Remove \<lparr>start = \<lparr>line = 1, col = 1\<rparr>, endp = \<lparr>line = 1, col = 36\<rparr>\<rparr>])
       (\<lambda>u s. indexToPosition s 12) = None"
proof -
  from observe_returned [OF remove_scenario_state]
  obtain u s where run: "run (new_TextStore (''0123456789012345678901234567890123456789'' @ [newline] @ ''abcdefghijklmnop''))
        [IndexToPosition 35,
         Remove \<lparr>start = \<lparr>line = 1, col = 36\<rparr>, endp = \<lparr>line = 1, col = 36\<rparr>\<rparr>,
         Remove \<lparr>start = \<lparr>line = 1, col = 1\<rparr>, endp = \<lparr>line = 1, col = 36\<rparr>\<rparr>] = Some (Inr (u, s))"
    and ls: "lines s = [''56789'', ''abcdefghijklmnop'']"
    and sz: "size_store s = 22"
    and hit: "SCache_get (indexToPosCache s) 10 = Some \<lparr>line = 0, col = 10\<rparr>"
    by auto
  have "indexToPosition s 12 = None"
    by (rule indexToPosition_stale_anchor [where p = "\<lparr>line = 0, col = 10\<rparr>" and l = "''56789''"])
       (simp_all add: hit sz ls roundToLowerBlockSize_def DEFAULT_BLOCK_SIZE_def nth_line_def)
  then show ?thesis
    unfolding run by (simp add: andThen_def observe_def sz)
qed

subsection \<open>What the line cache holds\<close>

text \<open>
  Claim C9. In every reachable state, every entry of the line cache maps a zero-based
  line number to the zero-based offset at which that line begins.

  As stated the claim fails on the first call: on the fresh buffer \<^verbatim>\<open>"a"\<close>,
  \<^verbatim>\<open>indexToPosition(0)\<close> caches \<open>1\<close> for line 0, which begins at offset \<open>0\<close>. The entry is
  \<^verbatim>\<open>steppedCharCount + newLineCharLen\<close>, one more than the offset, and the reader
  \<^verbatim>\<open>zeroBasedPosToIndex\<close> takes the one off again (\<^verbatim>\<open>closestCachedLineToIdx - 1\<close>).
\<close>

theorem line_cache_entry_is_one_more:
  "observe (\<lambda>s. (VCache_get (lineToIndexCache s) 0, lineStart (lines s) 0))
     (indexToPosition (new_TextStore ''a'') 0)
   = Some (Inr (Some 1, 0))"
  by code_simp

text \<open>
  The walk of \<^verbatim>\<open>indexToPosition\<close> keeps both caches sound: it starts at a sound anchor,
  and every entry it writes is computed from the start of the line it is on.
\<close>

lemma lineStart_Suc:
  assumes "0 \<le> n" and "n < int (length ls)"
  shows "lineStart ls (n + 1) = lineStart ls n + (int (length (ls ! nat n)) + 1)"
proof -
  have "nat (n + 1) = Suc (nat n)" using assms by simp
  moreover have "nat n < length ls" using assms by simp
  ultimately show ?thesis
    by (simp add: lineStart_def take_Suc_conv_app_nth)
qed

lemma findHighestCachedIndexToPos_found:
  "findHighestCachedIndexToPos c st en = Some (Some (m, p))
     \<Longrightarrow> SCache_get c m = Some p \<and> m mod DEFAULT_BLOCK_SIZE = 0"
proof (rule findHighestCachedIndexToPos.raw_induct
    [where P = "\<lambda>c st en r. \<forall>m p. r = Some (m, p) \<longrightarrow> SCache_get c m = Some p \<and> m mod DEFAULT_BLOCK_SIZE = 0",
     rule_format], goal_cases)
  case (1 f c st en r m p)
  then show ?case
    by (auto simp: Let_def roundToLowerBlockSize_multiple split: if_splits option.splits)
       (metis roundToLowerBlockSize_multiple)+
qed auto

lemma blockAnchor_sound:
  assumes "blockAnchor c (roundToLowerBlockSize i) = Some (ci, p)"
  shows "ci mod DEFAULT_BLOCK_SIZE = 0 \<and>
         ((ci = 0 \<and> p = \<lparr>line = 0, col = 0\<rparr>) \<or> SCache_get c ci = Some p)"
  using assms
  by (auto simp: blockAnchor_def Let_def roundToLowerBlockSize_multiple
      split: option.splits Option.bind_splits dest!: findHighestCachedIndexToPos_found)



lemma fillBlocks_sound_aux:
  "fillBlocks c ci stop n st = Some r \<Longrightarrow>
     ci mod DEFAULT_BLOCK_SIZE = 0 \<longrightarrow>
     (\<forall>k p. entries c k = Some p \<longrightarrow> DEFAULT_BLOCK_SIZE * k - col p = lineStart ls (line p)) \<longrightarrow>
     st = lineStart ls n \<longrightarrow>
     fst r = stop \<and>
     (\<forall>k p. entries (snd r) k = Some p \<longrightarrow> DEFAULT_BLOCK_SIZE * k - col p = lineStart ls (line p))"
proof (rule fillBlocks.raw_induct
    [where P = "\<lambda>c ci stop n st r.
        ci mod DEFAULT_BLOCK_SIZE = 0 \<longrightarrow>
        (\<forall>k p. entries c k = Some p \<longrightarrow> DEFAULT_BLOCK_SIZE * k - col p = lineStart ls (line p)) \<longrightarrow>
        st = lineStart ls n \<longrightarrow>
        fst r = stop \<and>
        (\<forall>k p. entries (snd r) k = Some p \<longrightarrow> DEFAULT_BLOCK_SIZE * k - col p = lineStart ls (line p))"],
    goal_cases)
  case (1 f c ci stop n st r)
  show ?case
  proof (intro impI)
    assume m: "ci mod DEFAULT_BLOCK_SIZE = 0"
      and snd: "\<forall>k p. entries c k = Some p \<longrightarrow> DEFAULT_BLOCK_SIZE * k - col p = lineStart ls (line p)"
      and st: "st = lineStart ls n"
    show "fst r = stop \<and>
        (\<forall>k p. entries (snd r) k = Some p \<longrightarrow> DEFAULT_BLOCK_SIZE * k - col p = lineStart ls (line p))"
    proof (cases "ci = stop")
      case True
      with 1(3) snd show ?thesis by auto
    next
      case False
      define c1 where "c1 = (case SCache_get c (ci + DEFAULT_BLOCK_SIZE) of
                        None \<Rightarrow> SCache_set c (ci + DEFAULT_BLOCK_SIZE)
                                  \<lparr>line = n, col = ci + DEFAULT_BLOCK_SIZE - st\<rparr>
                      | Some p \<Rightarrow> c)"
      from 1(3) False have call: "f c1 (ci + DEFAULT_BLOCK_SIZE) stop n st = Some r"
        by (simp add: Let_def c1_def)
      have key: "DEFAULT_BLOCK_SIZE * ((ci + DEFAULT_BLOCK_SIZE) div DEFAULT_BLOCK_SIZE) = ci + DEFAULT_BLOCK_SIZE"
        using m by (simp add: DEFAULT_BLOCK_SIZE_def) presburger
      have c1: "\<forall>k p. entries c1 k = Some p \<longrightarrow> DEFAULT_BLOCK_SIZE * k - col p = lineStart ls (line p)"
        using snd key st
        by (auto simp: c1_def SCache_set_def js_assign_def split: option.splits if_splits)
      have m1: "(ci + DEFAULT_BLOCK_SIZE) mod DEFAULT_BLOCK_SIZE = 0"
        using m by simp
      from 1(2) [OF call] m1 c1 st show ?thesis by blast
    qed
  qed
qed


lemma walkLines_sound_aux:
  "walkLines s i ci n st = Some r \<Longrightarrow>
     block_cache_sound s \<and> line_cache_sound s \<and> ci mod DEFAULT_BLOCK_SIZE = 0
       \<and> st = lineStart (lines s) n \<longrightarrow>
     (\<forall>a b s'. r = Inr (a, b, s') \<longrightarrow> block_cache_sound s' \<and> line_cache_sound s')"
proof (rule walkLines.raw_induct
    [where P = "\<lambda>s i ci n st r.
        block_cache_sound s \<and> line_cache_sound s \<and> ci mod DEFAULT_BLOCK_SIZE = 0
          \<and> st = lineStart (lines s) n \<longrightarrow>
        (\<forall>a b s'. r = Inr (a, b, s') \<longrightarrow> block_cache_sound s' \<and> line_cache_sound s')"],
    goal_cases)
  case (1 f s i ci n st r)
  note IH = 1(2) and body = 1(3)
  show ?case
  proof (intro impI allI, elim conjE)
    fix a b s'
    assume B: "block_cache_sound s" and L: "line_cache_sound s"
      and m: "ci mod DEFAULT_BLOCK_SIZE = 0" and st: "st = lineStart (lines s) n"
      and r: "r = Inr (a, b, s')"
    show "block_cache_sound s' \<and> line_cache_sound s'"
    proof (cases "n < int (length (lines s))")
      case False
      with body r B L show ?thesis by simp
    next
      case True
      with body r obtain cLine where cl: "nth_line (lines s) n = Some cLine"
        by (auto split: option.splits)
      then have n0: "0 \<le> n" and cLine: "cLine = lines s ! nat n"
        by (auto simp: nth_line_def split: if_splits)
      have ne: "lines s \<noteq> []" using True n0 by auto
      let ?after = "st + (int (length cLine) + 1)"
      let ?stop = "roundToLowerBlockSize ?after"
      from body True cl ne obtain ci' c' where
        fill: "fillBlocks (indexToPosCache s) ci ?stop n st = Some (ci', c')"
        by (auto simp: Let_def split: Option.bind_splits)
      define s1 where "s1 = s\<lparr>indexToPosCache := c',
          lineToIndexCache := VCache_set (lineToIndexCache s) n (st + 1)\<rparr>"
      from fillBlocks_sound_aux [OF fill, of "lines s"] m B st
      have ci': "ci' = ?stop"
        and c': "\<forall>k p. entries c' k = Some p \<longrightarrow>
                   DEFAULT_BLOCK_SIZE * k - col p = lineStart (lines s) (line p)"
        by (auto simp: block_cache_sound_def)
      have B1: "block_cache_sound s1"
        using c' by (simp add: block_cache_sound_def s1_def)
      have L1: "line_cache_sound s1"
        using L n0 True st
        by (auto simp: line_cache_sound_def s1_def VCache_set_def VCache_get_def js_assign_def
            split: if_splits)
      show ?thesis
      proof (cases "?after > i")
        case stop: True
        with body True cl ne fill r have "s' = s1"
          by (auto simp: Let_def s1_def)
        with B1 L1 show ?thesis by simp
      next
        case go: False
        with body True cl ne fill
        have call: "f s1 i ci' (n + 1) ?after = Some r"
          by (simp add: Let_def s1_def)
        have next_start: "?after = lineStart (lines s1) (n + 1)"
          using lineStart_Suc [OF n0 True] st cLine by (simp add: s1_def)
        have "ci' mod DEFAULT_BLOCK_SIZE = 0"
          by (simp add: ci' roundToLowerBlockSize_multiple)
        with IH [OF call] B1 L1 next_start r show ?thesis by blast
      qed
    qed
  qed
qed

lemma indexToPosition_sound:
  assumes "indexToPosition s i = Some (Inr (p, s'))"
    and "block_cache_sound s" and "line_cache_sound s"
  shows "block_cache_sound s' \<and> line_cache_sound s'"
proof -
  from assms(1) obtain ci q a b where
    anchor: "blockAnchor (indexToPosCache s) (roundToLowerBlockSize i) = Some (ci, q)" and
    walk: "walkLines s i ci (line q) (ci - col q) = Some (Inr (a, b, s'))"
    by (auto simp: indexToPosition_def throws_def returns_def
        split: if_splits sum.splits prod.splits Option.bind_splits)
  from blockAnchor_sound [OF anchor]
  have m: "ci mod DEFAULT_BLOCK_SIZE = 0"
    and q: "(ci = 0 \<and> q = \<lparr>line = 0, col = 0\<rparr>) \<or> SCache_get (indexToPosCache s) ci = Some q"
    by simp_all
  have key: "DEFAULT_BLOCK_SIZE * (ci div DEFAULT_BLOCK_SIZE) = ci"
    using m by (simp add: DEFAULT_BLOCK_SIZE_def) presburger
  from q have "ci - col q = lineStart (lines s) (line q)"
  proof
    assume "ci = 0 \<and> q = \<lparr>line = 0, col = 0\<rparr>"
    then show ?thesis by (simp add: lineStart_def)
  next
    assume "SCache_get (indexToPosCache s) ci = Some q"
    then have "entries (indexToPosCache s) (ci div DEFAULT_BLOCK_SIZE) = Some q"
      by (simp add: SCache_get_def)
    with assms(2) have "DEFAULT_BLOCK_SIZE * (ci div DEFAULT_BLOCK_SIZE) - col q
        = lineStart (lines s) (line q)"
      unfolding block_cache_sound_def by blast
    with key show ?thesis by simp
  qed
  with walkLines_sound_aux [OF walk] assms(2,3) m show ?thesis by blast
qed

lemma new_TextStore_sound: "block_cache_sound (new_TextStore t) \<and> line_cache_sound (new_TextStore t)"
  by (simp add: block_cache_sound_def line_cache_sound_def new_TextStore_def js_empty_def VCache_get_def)

lemma run_from_index_sound:
  "run s xs = Some (Inr (u, s')) \<Longrightarrow> list_all from_index xs \<Longrightarrow>
     block_cache_sound s \<and> line_cache_sound s \<Longrightarrow> block_cache_sound s' \<and> line_cache_sound s'"
proof (induction xs arbitrary: s)
  case Nil
  then show ?case by (simp add: returns_def)
next
  case (Cons x xs)
  from Cons.prems(2) obtain i where x: "x = IndexToPosition i"
    by (cases x) auto
  from Cons.prems(1) x obtain p s1 where
    step: "indexToPosition s i = Some (Inr (p, s1))" and rest: "run s1 xs = Some (Inr (u, s'))"
    by (auto simp: andThen_def discard_def returns_def split: option.splits sum.splits prod.splits)
  from indexToPosition_sound [OF step] Cons.prems(3)
  have "block_cache_sound s1 \<and> line_cache_sound s1" by simp
  with Cons.IH [OF rest] Cons.prems(2) show ?case by simp
qed

text \<open>
  Claim C9, amended. In every state reached from a freshly constructed buffer by
  \<^verbatim>\<open>indexToPosition\<close> calls, every entry of the line cache belongs to a line of the
  document and is one more than the zero-based offset at which that line begins.
\<close>

theorem line_cache_after_indexToPosition:
  assumes "list_all from_index xs" and "run (new_TextStore t) xs = Some (Inr (u, s))"
    and "VCache_get (lineToIndexCache s) L = Some v"
  shows "0 \<le> L \<and> L < int (length (lines s)) \<and> v = lineStart (lines s) L + 1"
  using run_from_index_sound [OF assms(2,1) new_TextStore_sound] assms(3)
  by (simp add: line_cache_sound_def)

lemma line_cache_scenario:
  "observe (\<lambda>s. (VCache_get (lineToIndexCache s) 1, lineStart (lines s) 1))
     (run (new_TextStore (''hello'' @ [newline] @ ''world'')) [IndexToPosition 6])
   = Some (Inr (Some 7, 6))"
  by code_simp

theorem line_cache_after_indexToPosition_witness:
  "\<exists>s. run (new_TextStore (''hello'' @ [newline] @ ''world'')) [IndexToPosition 6]
          = Some (Inr ((), s))
      \<and> VCache_get (lineToIndexCache s) 1 = Some 7
      \<and> (1::int) < int (length (lines s)) \<and> lineStart (lines s) 1 + 1 = 7"
proof -
  from observe_returned [OF line_cache_scenario]
  obtain u s where run: "run (new_TextStore (''hello'' @ [newline] @ ''world''))
        [IndexToPosition 6] = Some (Inr (u, s))"
    and entry: "VCache_get (lineToIndexCache s) 1 = Some 7"
    by auto
  have "list_all from_index [IndexToPosition 6]"
    by simp
  from line_cache_after_indexToPosition [OF this run entry] run entry
  show ?thesis by auto
qed

subsection \<open>A negative index\<close>



text \<open>
  Every state reached from a constructed store is well formed: the walk of
  \<^verbatim>\<open>indexToPosition\<close> assigns block keys above its anchor, which is not negative, and a
  mutation puts at least one line where it takes lines away.
\<close>

lemma fillBlocks_no_negative_key:
  "fillBlocks c ci stop n st = Some r \<Longrightarrow>
     0 \<le> ci \<longrightarrow> (\<forall>k<0. entries c k = None) \<longrightarrow>
     0 \<le> fst r \<and> (\<forall>k<0. entries (snd r) k = None)"
proof (rule fillBlocks.raw_induct
    [where P = "\<lambda>c ci stop n st r.
        0 \<le> ci \<longrightarrow> (\<forall>k<0. entries c k = None) \<longrightarrow>
        0 \<le> fst r \<and> (\<forall>k<0. entries (snd r) k = None)"],
    goal_cases)
  case (1 f c ci stop n st r)
  note IH = 1(2) and body = 1(3)
  show ?case
  proof (intro impI)
    assume ci: "0 \<le> ci" and c: "\<forall>k<0. entries c k = None"
    show "0 \<le> fst r \<and> (\<forall>k<0. entries (snd r) k = None)"
    proof (cases "ci = stop")
      case True
      with body ci c show ?thesis by auto
    next
      case False
      define c1 where "c1 = (case SCache_get c (ci + DEFAULT_BLOCK_SIZE) of
                        None \<Rightarrow> SCache_set c (ci + DEFAULT_BLOCK_SIZE)
                                  \<lparr>line = n, col = ci + DEFAULT_BLOCK_SIZE - st\<rparr>
                      | Some p \<Rightarrow> c)"
      from body False have call: "f c1 (ci + DEFAULT_BLOCK_SIZE) stop n st = Some r"
        by (simp add: Let_def c1_def)
      have "0 \<le> (ci + DEFAULT_BLOCK_SIZE) div DEFAULT_BLOCK_SIZE"
        using ci by (simp add: DEFAULT_BLOCK_SIZE_def)
      with c have c1: "\<forall>k<0. entries c1 k = None"
        by (auto simp: c1_def SCache_set_def js_assign_def split: option.splits)
      have "0 \<le> ci + DEFAULT_BLOCK_SIZE"
        using ci by (simp add: DEFAULT_BLOCK_SIZE_def)
      with IH [OF call] c1 show ?thesis by blast
    qed
  qed
qed

lemma walkLines_well_formed:
  "walkLines s i ci n st = Some r \<Longrightarrow>
     well_formed s \<and> 0 \<le> ci \<longrightarrow> (\<forall>a b s'. r = Inr (a, b, s') \<longrightarrow> well_formed s')"
proof (rule walkLines.raw_induct
    [where P = "\<lambda>s i ci n st r.
        well_formed s \<and> 0 \<le> ci \<longrightarrow> (\<forall>a b s'. r = Inr (a, b, s') \<longrightarrow> well_formed s')"],
    goal_cases)
  case (1 f s i ci n st r)
  note IH = 1(2) and body = 1(3)
  show ?case
  proof (intro impI allI, elim conjE)
    fix a b s'
    assume W: "well_formed s" and ci: "0 \<le> ci" and r: "r = Inr (a, b, s')"
    show "well_formed s'"
    proof (cases "n < int (length (lines s))")
      case False
      with body r W show ?thesis by simp
    next
      case True
      with body r obtain cLine where cl: "nth_line (lines s) n = Some cLine"
        by (auto split: option.splits)
      have ne: "lines s \<noteq> []" using W by (simp add: well_formed_def)
      let ?after = "st + (int (length cLine) + 1)"
      let ?stop = "roundToLowerBlockSize ?after"
      from body True cl ne obtain ci' c' where
        fill: "fillBlocks (indexToPosCache s) ci ?stop n st = Some (ci', c')"
        by (auto simp: Let_def split: Option.bind_splits)
      define s1 where "s1 = s\<lparr>indexToPosCache := c',
          lineToIndexCache := VCache_set (lineToIndexCache s) n (st + 1)\<rparr>"
      from fillBlocks_no_negative_key [OF fill] ci W
      have ci': "0 \<le> ci'" and c': "\<forall>k<0. entries c' k = None"
        by (auto simp: well_formed_def)
      have W1: "well_formed s1"
        using c' ne by (simp add: well_formed_def s1_def)
      show ?thesis
      proof (cases "?after > i")
        case stop: True
        with body True cl ne fill r have "s' = s1"
          by (auto simp: Let_def s1_def)
        with W1 show ?thesis by simp
      next
        case go: False
        with body True cl ne fill
        have call: "f s1 i ci' (n + 1) ?after = Some r"
          by (simp add: Let_def s1_def)
        with IH [OF call] W1 ci' r show ?thesis by blast
      qed
    qed
  qed
qed

lemma indexToPosition_well_formed:
  assumes "indexToPosition s i = Some (Inr (p, s'))" and "well_formed s"
  shows "well_formed s'"
proof -
  from assms(1) obtain ci q a b where
    anchor: "blockAnchor (indexToPosCache s) (roundToLowerBlockSize i) = Some (ci, q)" and
    walk: "walkLines s i ci (line q) (ci - col q) = Some (Inr (a, b, s'))"
    by (auto simp: indexToPosition_def throws_def returns_def
        split: if_splits sum.splits prod.splits Option.bind_splits)
  from blockAnchor_sound [OF anchor]
  have m: "ci mod DEFAULT_BLOCK_SIZE = 0"
    and q: "(ci = 0 \<and> q = \<lparr>line = 0, col = 0\<rparr>) \<or> SCache_get (indexToPosCache s) ci = Some q"
    by simp_all
  have "0 \<le> ci"
  proof (rule ccontr)
    assume "\<not> 0 \<le> ci"
    then have neg: "ci div DEFAULT_BLOCK_SIZE < 0" by (simp add: DEFAULT_BLOCK_SIZE_def)
    with assms(2) have "SCache_get (indexToPosCache s) ci = None"
      by (simp add: well_formed_def SCache_get_def)
    with q \<open>\<not> 0 \<le> ci\<close> show False by auto
  qed
  with walkLines_well_formed [OF walk] assms(2) show ?thesis by blast
qed

lemma zeroBasedPosToIndex_keeps_blocks:
  "zeroBasedPosToIndex s p = Some (Inr (i, s')) \<Longrightarrow> indexToPosCache s' = indexToPosCache s"
  by (auto simp: zeroBasedPosToIndex_def throws_def returns_def Let_def
      split: if_splits sum.splits prod.splits Option.bind_splits)

lemma flushCache_well_formed:
  "flushCache s p = Some (Inr (u, s')) \<Longrightarrow> well_formed s \<Longrightarrow> well_formed s'"
  by (auto simp: flushCache_def andThen_def returns_def well_formed_def SCache_flush_def
      js_slice0_def Let_def
      split: option.splits sum.splits prod.splits dest: zeroBasedPosToIndex_keeps_text)

lemma splice_lines_nonempty: "items \<noteq> [] \<Longrightarrow> fst (splice_lines ls a d items) \<noteq> []"
  by (simp add: splice_lines_def Let_def)

lemma perform_well_formed:
  assumes "perform s x = Some (Inr (u, s'))" and "well_formed s"
  shows "well_formed s'"
proof (cases x)
  case (Insert t p)
  with assms show ?thesis
    by (auto simp: insert_text_def andThen_def returns_def throws_def Let_def well_formed_def
        splice_lines_nonempty split_nl_nonempty
        split: if_splits option.splits sum.splits prod.splits dest!: flushCache_well_formed)
next
  case (Replace rng t)
  with assms show ?thesis
    by (auto simp: replace_def andThen_def returns_def throws_def Let_def well_formed_def
        splice_lines_nonempty split_nl_nonempty
        split: if_splits option.splits sum.splits prod.splits dest!: flushCache_well_formed)
next
  case (Remove rng)
  with assms show ?thesis
    by (auto simp: remove_def replace_def andThen_def returns_def throws_def Let_def well_formed_def
        splice_lines_nonempty split_nl_nonempty
        split: if_splits option.splits sum.splits prod.splits dest!: flushCache_well_formed)
next
  case (IndexToPosition i)
  with assms show ?thesis
    by (auto simp: discard_def andThen_def returns_def
        split: option.splits sum.splits prod.splits dest: indexToPosition_well_formed)
next
  case (PositionToIndex p)
  with assms show ?thesis
    by (auto simp: discard_def andThen_def returns_def positionToIndex_def throws_def Let_def
        well_formed_def
        split: option.splits sum.splits prod.splits
        dest: zeroBasedPosToIndex_keeps_text zeroBasedPosToIndex_keeps_blocks)
qed

lemma run_well_formed:
  "run s xs = Some (Inr (u, s')) \<Longrightarrow> well_formed s \<Longrightarrow> well_formed s'"
proof (induction xs arbitrary: s)
  case Nil
  then show ?case by (simp add: returns_def)
next
  case (Cons x xs)
  from Cons.prems(1) obtain s1 where
    step: "perform s x = Some (Inr ((), s1))" and rest: "run s1 xs = Some (Inr (u, s'))"
    by (auto simp: andThen_def split: option.splits sum.splits prod.splits)
  from perform_well_formed [OF step Cons.prems(2)] Cons.IH [OF rest] show ?case by simp
qed

lemma new_TextStore_well_formed: "well_formed (new_TextStore t)"
  by (simp add: well_formed_def new_TextStore_def js_empty_def split_nl_nonempty)

text \<open>
  After calls whose ranges are forward the size counter is the length of the text, so
  it is not negative either.
\<close>

lemma forward_run_well_formed:
  assumes "list_all forward xs" and "run (new_TextStore t) xs = Some (Inr (u, s))"
  shows "well_formed s \<and> 0 \<le> size_store s"
  using run_well_formed [OF assms(2) new_TextStore_well_formed]
    run_consistent [OF assms(2,1) consistent_new]
  by (simp add: consistent_def)



end
